theory Spec2Isabelle
  imports Complex_Main "HOL-Library.Char_ord" "HOL-Library.List_Lexorder"
begin

section \<open>Numbers\<close>

text \<open>
  A JavaScript number is an IEEE 754 double: a finite value, one of the two infinities, or
  NaN. A finite double is a rational number, and the result of an arithmetic operation is
  the exact result rounded to the nearest double, ties going to the even significand.
  The two zeros are one value here: no operation of the scheduler tells them apart
  (\<open>-0 > 0\<close>, \<open>-0 <= 0\<close>, \<open>-0 === 0\<close>, \<open>-0 || 0\<close> and \<open>Math.max(0, -0)\<close> are those of \<open>0\<close>).
\<close>

datatype number = Finite rat | PosInf | NegInf | NaN

text \<open>
  The binary exponent of a positive rational: \<open>halvings a\<close> is the largest \<open>e\<close> with
  \<open>2 ^ e \<le> a\<close> when \<open>1 \<le> a\<close>, and \<open>doublings a 0\<close> is the exponent of a value below 1, not
  lower than the exponent -1022 of the subnormal doubles.
\<close>

function halvings :: "rat \<Rightarrow> nat" where
  "halvings a = (if a < 2 then 0 else Suc (halvings (a / 2)))"
  by pat_completeness auto
termination
proof (relation "measure (\<lambda>a. nat \<lfloor>a\<rfloor>)")
  show "wf (measure (\<lambda>a. nat \<lfloor>a\<rfloor>))" by simp
next
  fix a :: rat assume "\<not> a < 2"
  then have "2 \<le> a" by simp
  then have "\<lfloor>a / 2\<rfloor> < \<lfloor>a\<rfloor>" by (simp add: floor_less_iff le_floor_iff) linarith
  moreover have "0 < \<lfloor>a\<rfloor>" using \<open>2 \<le> a\<close> by (simp add: less_floor_iff)
  ultimately show "(a / 2, a) \<in> measure (\<lambda>a. nat \<lfloor>a\<rfloor>)" by simp
qed

function doublings :: "rat \<Rightarrow> int \<Rightarrow> int" where
  "doublings a e = (if 1 \<le> a \<or> e \<le> - 1022 then e else doublings (2 * a) (e - 1))"
  by pat_completeness auto
termination
  by (relation "measure (\<lambda>(a, e). nat (e + 1022))") auto

definition exponentOf :: "rat \<Rightarrow> int" where
  "exponentOf a = (if 1 \<le> a then int (halvings a) else doublings a 0)"

definition pow2 :: "int \<Rightarrow> rat" where
  "pow2 e = (if 0 \<le> e then 2 ^ nat e else 1 / 2 ^ nat (- e))"

definition roundHalfEven :: "rat \<Rightarrow> int" where
  "roundHalfEven q =
     (if q - of_int \<lfloor>q\<rfloor> < 1 / 2 then \<lfloor>q\<rfloor>
      else if 1 / 2 < q - of_int \<lfloor>q\<rfloor> then \<lfloor>q\<rfloor> + 1
      else if even \<lfloor>q\<rfloor> then \<lfloor>q\<rfloor>
      else \<lfloor>q\<rfloor> + 1)"

text \<open>
  A double has 53 significant bits, so the doubles around a positive \<open>a\<close> are the multiples
  of \<open>ulp a\<close>, and \<open>a\<close> rounds to the nearest of them. A magnitude that rounds to
  \<open>2 ^ 1024\<close> or more overflows to an infinity.
\<close>

definition ulp :: "rat \<Rightarrow> rat" where
  "ulp a = pow2 (exponentOf a - 52)"

definition roundMagnitude :: "rat \<Rightarrow> rat" where
  "roundMagnitude a = of_int (roundHalfEven (a / ulp a)) * ulp a"

definition overflowBound :: rat where
  "overflowBound = 2 ^ 1024"

definition roundDouble :: "rat \<Rightarrow> number" where
  "roundDouble x =
     (if x = 0 then Finite 0
      else if overflowBound \<le> roundMagnitude \<bar>x\<bar> then (if x < 0 then NegInf else PosInf)
      else Finite (if x < 0 then - roundMagnitude \<bar>x\<bar> else roundMagnitude \<bar>x\<bar>))"

text \<open>
  The operators the scheduler applies to numbers: unary minus, \<open>x + y\<close>, \<open>x - y\<close>,
  \<open>x > 0\<close>, \<open>x <= 0\<close>, \<open>x === 0\<close>, \<open>x || 0\<close> and \<open>Math.max(0, x)\<close>. A comparison with NaN is
  false, NaN is falsy, and \<open>Math.max\<close> of NaN is NaN.
\<close>

fun numNeg :: "number \<Rightarrow> number" where
  "numNeg (Finite a) = Finite (- a)"
| "numNeg PosInf = NegInf"
| "numNeg NegInf = PosInf"
| "numNeg NaN = NaN"

fun numAdd :: "number \<Rightarrow> number \<Rightarrow> number" where
  "numAdd (Finite a) (Finite b) = roundDouble (a + b)"
| "numAdd NaN y = NaN"
| "numAdd x NaN = NaN"
| "numAdd PosInf NegInf = NaN"
| "numAdd NegInf PosInf = NaN"
| "numAdd PosInf y = PosInf"
| "numAdd NegInf y = NegInf"
| "numAdd x PosInf = PosInf"
| "numAdd x NegInf = NegInf"

definition numSub :: "number \<Rightarrow> number \<Rightarrow> number" where
  "numSub x y = numAdd x (numNeg y)"

fun gtZero :: "number \<Rightarrow> bool" where
  "gtZero (Finite a) = (0 < a)"
| "gtZero PosInf = True"
| "gtZero NegInf = False"
| "gtZero NaN = False"

fun leZero :: "number \<Rightarrow> bool" where
  "leZero (Finite a) = (a \<le> 0)"
| "leZero PosInf = False"
| "leZero NegInf = True"
| "leZero NaN = False"

definition isZero :: "number \<Rightarrow> bool" where
  "isZero x = (x = Finite 0)"

definition orZero :: "number \<Rightarrow> number" where
  "orZero x = (if x = NaN \<or> x = Finite 0 then Finite 0 else x)"

fun maxZero :: "number \<Rightarrow> number" where
  "maxZero (Finite a) = Finite (max 0 a)"
| "maxZero PosInf = PosInf"
| "maxZero NegInf = Finite 0"
| "maxZero NaN = NaN"

text \<open>
  \<open>Array.prototype.sort\<close> reads only the sign of what the comparator returns, NaN counting
  as 0; \<open>signOf\<close> is that sign. A loop counter such as \<open>lockedOOC\<close> is a whole number not
  above the length of an array, which is below \<open>2 ^ 32\<close>, so it is a double; it enters the
  arithmetic through \<open>ofInt\<close>.
\<close>

fun signOf :: "number \<Rightarrow> int" where
  "signOf (Finite a) = (if a < 0 then - 1 else if a = 0 then 0 else 1)"
| "signOf PosInf = 1"
| "signOf NegInf = - 1"
| "signOf NaN = 0"

definition ofInt :: "int \<Rightarrow> number" where
  "ofInt k = Finite (of_int k)"

subsection \<open>Rounding a whole number\<close>

text \<open>
  The same rounding computed in integer arithmetic, for a whole number \<open>n \<ge> 1\<close>: up to
  \<open>2 ^ 53\<close> every whole number is a double, and above it \<open>n\<close> rounds to a multiple of
  \<open>2 ^ (e - 52)\<close> where \<open>e = halvingsInt n\<close> is its exponent. Lemma \<open>roundMagnitude_code\<close>
  below shows that \<open>roundMagnitude\<close> of a whole number is this value.
\<close>

function halvingsInt :: "int \<Rightarrow> nat" where
  "halvingsInt n = (if n < 2 then 0 else Suc (halvingsInt (n div 2)))"
  by pat_completeness auto
termination
  by (relation "measure nat") auto

definition roundHalfEvenDiv :: "int \<Rightarrow> int \<Rightarrow> int" where
  "roundHalfEvenDiv n k =
     (if 2 * (n mod k) < k then n div k
      else if k < 2 * (n mod k) then n div k + 1
      else if even (n div k) then n div k
      else n div k + 1)"

definition roundWholeMagnitude :: "int \<Rightarrow> int" where
  "roundWholeMagnitude n =
     (if n \<le> 9007199254740992 then n
      else roundHalfEvenDiv n (2 ^ (halvingsInt n - 52)) * 2 ^ (halvingsInt n - 52))"

section \<open>Data model (src/app.js)\<close>

text \<open>
  A week cell is an object with a \<open>type\<close> tag and, for the two out-of-conference kinds,
  the fields \<open>opponent\<close> and \<open>away\<close> (parseCSVToTeams, lines 29-50, and placeGameAtWeek,
  lines 325-326).
\<close>

datatype slot =
    ConfHome
  | ConfAway
  | Bye
  | Empty
  | LockedOOC string bool
  | OocGame string bool

text \<open>
  A team as parseCSVToTeams builds it (line 52). The record is extensible: whatever other
  properties an input object carries live in the \<open>more\<close> part, which deepCloneTeams drops.
  \<open>oocNeeded\<close> is what \<open>Number(...)\<close> made of the CSV field (lines 26-27): any finite
  number, whole or not.
\<close>

record team =
  name :: string
  conference :: string
  oocNeeded :: number
  weeks :: "slot list"

text \<open>
  The per-team scheduling state of computeTeamState (lines 269-280). \<open>ref\<close> is the working
  copy of the team: deepCloneTeams makes one fresh copy per list entry and each state
  object holds the only reference to its copy, so the copy is stored in the state itself.
  The state's own \<open>name\<close> and \<open>conference\<close> are the fields \<open>st_name\<close> and \<open>st_conference\<close>,
  the plain names being those of the team record.
\<close>

record teamState =
  ref :: team
  st_name :: string
  key :: string
  st_conference :: string
  totalGames :: int
  homeGames :: int
  awayGames :: int
  playedOpp :: "string set"
  availableWeeks :: "nat list"
  oocRemaining :: number

text \<open>
  The object tryGenerateSchedule returns (lines 398 and 401). A property that the object
  literal does not list is absent, which is \<open>None\<close> here.
\<close>

record result =
  ok :: bool
  reason :: "string option"
  teams :: "team list option"
  unscheduled :: "number option"
  scheduledOOC :: "number option"
  neededOOC :: "number option"

section \<open>Strings\<close>

text \<open>
  Names are normalised with \<open>t.name.trim().toLowerCase()\<close>. The model covers ASCII
  strings: \<open>trim\<close> strips the ASCII white space of ECMAScript (TAB, LF, VT, FF, CR, SPACE)
  from both ends and \<open>toLowerCase\<close> maps A-Z to a-z; any other character is kept as it
  is. The relational operator \<open><\<close> on JavaScript strings compares code units
  lexicographically, which is the order of \<open>List_Lexorder\<close> over \<open>Char_ord\<close>. No proof
  below depends on how a key is computed, only on its being computed once per team.
\<close>

definition isWhiteSpace :: "char \<Rightarrow> bool" where
  "isWhiteSpace c = (c \<in> set [CHR 0x09, CHR 0x0A, CHR 0x0B, CHR 0x0C, CHR 0x0D, CHR '' ''])"

definition trim :: "string \<Rightarrow> string" where
  "trim s = rev (dropWhile isWhiteSpace (rev (dropWhile isWhiteSpace s)))"

definition lowerChar :: "char \<Rightarrow> char" where
  "lowerChar c =
     (case map_of (zip ''ABCDEFGHIJKLMNOPQRSTUVWXYZ'' ''abcdefghijklmnopqrstuvwxyz'') c of
        Some d \<Rightarrow> d
      | None \<Rightarrow> c)"

definition toLowerCase :: "string \<Rightarrow> string" where
  "toLowerCase s = map lowerChar s"

definition normKey :: "string \<Rightarrow> string" where
  "normKey s = toLowerCase (trim s)"

section \<open>Array.prototype.sort\<close>

text \<open>
  \<open>xs.sort(cmp)\<close> is a stable sort (ECMAScript 2019): \<open>x\<close> goes before \<open>y\<close> when
  \<open>cmp(x, y) < 0\<close>, and elements that compare equal keep their order. Every stable sort
  returns the same list for a consistent comparator; the model is insertion sort.
  \<open>x || y\<close> on numbers is \<open>x\<close> unless \<open>x\<close> is zero or NaN. The sort reads only the sign of
  the comparator's value, so the comparators below return that sign: a difference of two
  array lengths is a whole number and its own sign decides, and a difference of two
  \<open>oocRemaining\<close> enters through \<open>signOf\<close>, which is 0 exactly when the difference is falsy.
\<close>

fun insertSorted :: "('a \<Rightarrow> 'a \<Rightarrow> int) \<Rightarrow> 'a \<Rightarrow> 'a list \<Rightarrow> 'a list" where
  "insertSorted cmp x [] = [x]"
| "insertSorted cmp x (y # ys) =
     (if cmp x y \<le> 0 then x # y # ys else y # insertSorted cmp x ys)"

definition sortWith :: "('a \<Rightarrow> 'a \<Rightarrow> int) \<Rightarrow> 'a list \<Rightarrow> 'a list" where
  "sortWith cmp xs = foldr (insertSorted cmp) xs []"

definition orElse :: "int \<Rightarrow> int \<Rightarrow> int" where
  "orElse x y = (if x \<noteq> 0 then x else y)"

section \<open>deepCloneTeams and computeTeamState (lines 230-284)\<close>

definition deepCloneTeams :: "'a team_scheme list \<Rightarrow> team list" where
  "deepCloneTeams src =
     map (\<lambda>t. \<lparr>name = name t, conference = conference t, oocNeeded = oocNeeded t,
               weeks = map (\<lambda>w. w) (weeks t)\<rparr>) src"

text \<open>
  The loop over \<open>t.weeks\<close> (lines 251-266) with its six local variables:
  (totalGames, homeGames, awayGames, lockedOOC, playedOpp, availableWeeks).
  An opponent is recorded only if the string is non-empty (\<open>if (w.opponent)\<close>).
\<close>

type_synonym tally = "int \<times> int \<times> int \<times> int \<times> string set \<times> nat list"

fun scanWeek :: "nat \<Rightarrow> slot \<Rightarrow> tally \<Rightarrow> tally" where
  "scanWeek i ConfHome (tg, hg, ag, lk, po, aw) = (tg + 1, hg + 1, ag, lk, po, aw)"
| "scanWeek i ConfAway (tg, hg, ag, lk, po, aw) = (tg + 1, hg, ag + 1, lk, po, aw)"
| "scanWeek i (LockedOOC opp away) (tg, hg, ag, lk, po, aw) =
     (tg + 1,
      (if away then hg else hg + 1),
      (if away then ag + 1 else ag),
      lk + 1,
      (if opp \<noteq> [] then insert (normKey opp) po else po),
      aw)"
| "scanWeek i (OocGame opp away) (tg, hg, ag, lk, po, aw) =
     (tg + 1,
      (if away then hg else hg + 1),
      (if away then ag + 1 else ag),
      lk,
      (if opp \<noteq> [] then insert (normKey opp) po else po),
      aw)"
| "scanWeek i Empty (tg, hg, ag, lk, po, aw) = (tg, hg, ag, lk, po, aw @ [i])"
| "scanWeek i Bye (tg, hg, ag, lk, po, aw) = (tg, hg, ag, lk, po, aw @ [i])"

fun scanWeeks :: "nat \<Rightarrow> slot list \<Rightarrow> tally \<Rightarrow> tally" where
  "scanWeeks i [] acc = acc"
| "scanWeeks i (w # ws) acc = scanWeeks (Suc i) ws (scanWeek i w acc)"

text \<open>
  Line 268 is \<open>Math.max(0, (t.oocNeeded || 0) - lockedOOC)\<close>, in the arithmetic of doubles.
  The four counters are whole numbers that count cells of \<open>t.weeks\<close>. The name map
  \<open>byName\<close> that computeTeamState also returns is dropped by its only caller and is not
  modelled.
\<close>

definition teamStateOf :: "team \<Rightarrow> teamState" where
  "teamStateOf t =
     (case scanWeeks 0 (weeks t) (0, 0, 0, 0, {}, []) of
        (tg, hg, ag, lk, po, aw) \<Rightarrow>
          \<lparr>ref = t, st_name = name t, key = normKey (name t), st_conference = conference t,
           totalGames = tg, homeGames = hg, awayGames = ag, playedOpp = po,
           availableWeeks = aw,
           oocRemaining = maxZero (numSub (orZero (oocNeeded t)) (ofInt lk))\<rparr>)"

definition computeTeamState :: "team list \<Rightarrow> teamState list" where
  "computeTeamState ts = map teamStateOf ts"

section \<open>canScheduleBetween and pickHomeAway (lines 299-320)\<close>

text \<open>
  The null test of line 300 has no counterpart: both arguments are always state objects.
\<close>

definition canScheduleBetween :: "teamState \<Rightarrow> teamState \<Rightarrow> bool" where
  "canScheduleBetween a b =
     (if key a = key b then False
      else if st_conference a = st_conference b then False
      else if leZero (oocRemaining a) \<or> leZero (oocRemaining b) then False
      else if totalGames a \<ge> 12 \<or> totalGames b \<ge> 12 then False
      else if key b \<in> playedOpp a \<or> key a \<in> playedOpp b then False
      else True)"

text \<open>
  State objects are shared and mutated in place, so the matcher works on the array of
  states and refers to an object by its index. pickHomeAway returns the two references
  it was given, as (home, away).
\<close>

definition pickHomeAway :: "teamState list \<Rightarrow> nat \<Rightarrow> nat \<Rightarrow> nat \<times> nat" where
  "pickHomeAway st a b =
     (if homeGames (st ! a) \<noteq> homeGames (st ! b) then
        (if homeGames (st ! a) < homeGames (st ! b) then (a, b) else (b, a))
      else if awayGames (st ! a) \<noteq> awayGames (st ! b) then
        (if awayGames (st ! a) > awayGames (st ! b) then (a, b) else (b, a))
      else (if key (st ! a) < key (st ! b) then (a, b) else (b, a)))"

section \<open>placeGameAtWeek (lines 322-338)\<close>

text \<open>
  Each statement of the body mutates one state object. A statement is modelled as a
  function on the state array; \<open>modify i f st\<close> is the array \<open>st\<close> after \<open>f\<close> has changed
  the object at index \<open>i\<close>.
\<close>

definition modify :: "nat \<Rightarrow> (teamState \<Rightarrow> teamState) \<Rightarrow> teamState list \<Rightarrow> teamState list" where
  "modify i f st = st[i := f (st ! i)]"

text \<open>
  \<open>x.ref.weeks[week] = { type: 'oocGame', opponent: y.name, away: isAway }\<close>. The
  matcher only writes at a week taken from \<open>availableWeeks\<close>, which is an index of the
  array (lemma \<open>availableWeeks_in_range\<close> below), so the assignment never extends the
  array and is the list update.
\<close>

definition writeGame :: "nat \<Rightarrow> nat \<Rightarrow> nat \<Rightarrow> bool \<Rightarrow> teamState list \<Rightarrow> teamState list" where
  "writeGame x y week isAway st =
     modify x (\<lambda>s. s\<lparr>ref := (ref s)\<lparr>weeks := (weeks (ref s))[week := OocGame (st_name (st ! y)) isAway]\<rparr>\<rparr>) st"

definition incTotalGames :: "nat \<Rightarrow> teamState list \<Rightarrow> teamState list" where
  "incTotalGames x = modify x (\<lambda>s. s\<lparr>totalGames := totalGames s + 1\<rparr>)"

definition incHomeGames :: "nat \<Rightarrow> teamState list \<Rightarrow> teamState list" where
  "incHomeGames x = modify x (\<lambda>s. s\<lparr>homeGames := homeGames s + 1\<rparr>)"

definition incAwayGames :: "nat \<Rightarrow> teamState list \<Rightarrow> teamState list" where
  "incAwayGames x = modify x (\<lambda>s. s\<lparr>awayGames := awayGames s + 1\<rparr>)"

text \<open>\<open>x.oocRemaining--\<close> stores the double nearest to \<open>x.oocRemaining - 1\<close>.\<close>

definition decOocRemaining :: "nat \<Rightarrow> teamState list \<Rightarrow> teamState list" where
  "decOocRemaining x = modify x (\<lambda>s. s\<lparr>oocRemaining := numSub (oocRemaining s) (Finite 1)\<rparr>)"

definition addPlayedOpp :: "nat \<Rightarrow> nat \<Rightarrow> teamState list \<Rightarrow> teamState list" where
  "addPlayedOpp x y st = modify x (\<lambda>s. s\<lparr>playedOpp := insert (key (st ! y)) (playedOpp s)\<rparr>) st"

definition removeWeek :: "nat \<Rightarrow> nat \<Rightarrow> teamState list \<Rightarrow> teamState list" where
  "removeWeek x week =
     modify x (\<lambda>s. s\<lparr>availableWeeks := filter (\<lambda>w. w \<noteq> week) (availableWeeks s)\<rparr>)"

text \<open>
  The body of placeGameAtWeek: the destructuring of line 324 and the twelve statements of
  lines 325-337, run in order on the state array.
\<close>

definition placeGameAtWeek :: "teamState list \<Rightarrow> nat \<Rightarrow> nat \<Rightarrow> nat \<Rightarrow> teamState list" where
  "placeGameAtWeek st a b week =
     (let p = pickHomeAway st a b; home = fst p; away = snd p in
        foldl (\<lambda>s stmt. stmt s) st
          [writeGame home away week False,
           writeGame away home week True,
           incTotalGames a,
           incTotalGames b,
           incHomeGames home,
           incAwayGames away,
           decOocRemaining a,
           decOocRemaining b,
           addPlayedOpp a b,
           addPlayedOpp b a,
           removeWeek a week,
           removeWeek b week])"

section \<open>tryGenerateSchedule (lines 359-402)\<close>

text \<open>
  \<open>localeCompare\<close> is supplied by the host and depends on its locale; the matcher takes it
  as the parameter \<open>lc\<close>.
\<close>

definition weekOrder :: "bool \<Rightarrow> nat list" where
  "weekOrder avoidWeek0 = (if avoidWeek0 then [1..<14] @ [0] else [0..<14])"

definition isEligible :: "teamState list \<Rightarrow> nat \<Rightarrow> nat \<Rightarrow> bool" where
  "isEligible st w t =
     (gtZero (oocRemaining (st ! t)) \<and> w \<in> set (availableWeeks (st ! t))
      \<and> totalGames (st ! t) < 12)"

definition cmpEligible :: "teamState list \<Rightarrow> nat \<Rightarrow> nat \<Rightarrow> int" where
  "cmpEligible st a b =
     orElse (int (length (availableWeeks (st ! a))) - int (length (availableWeeks (st ! b))))
            (signOf (numSub (oocRemaining (st ! b)) (oocRemaining (st ! a))))"

definition cmpCandidate :: "(string \<Rightarrow> string \<Rightarrow> int) \<Rightarrow> teamState list \<Rightarrow> nat \<Rightarrow> nat \<Rightarrow> int" where
  "cmpCandidate lc st a b =
     orElse (int (length (availableWeeks (st ! a))) - int (length (availableWeeks (st ! b))))
       (orElse (signOf (numSub (oocRemaining (st ! b)) (oocRemaining (st ! a))))
               (lc (key (st ! a)) (key (st ! b))))"

definition candidates ::
  "(string \<Rightarrow> string \<Rightarrow> int) \<Rightarrow> nat \<Rightarrow> nat list \<Rightarrow> teamState list \<Rightarrow> string set \<Rightarrow> nat \<Rightarrow> nat list" where
  "candidates lc w eligible st used t =
     sortWith (cmpCandidate lc st)
       (filter (\<lambda>c. c \<noteq> t \<and> key (st ! c) \<notin> used \<and> w \<in> set (availableWeeks (st ! c))
                    \<and> canScheduleBetween (st ! t) (st ! c)) eligible)"

text \<open>
  The loop \<open>for (const t of eligible)\<close> of lines 379-391. The argument after \<open>eligible\<close>
  is the part of it still to visit; the pair is the state array and the set \<open>used\<close>.
\<close>

fun pairLoop ::
  "(string \<Rightarrow> string \<Rightarrow> int) \<Rightarrow> nat \<Rightarrow> nat list \<Rightarrow> nat list \<Rightarrow> teamState list \<times> string set
     \<Rightarrow> teamState list \<times> string set" where
  "pairLoop lc w eligible [] (st, used) = (st, used)"
| "pairLoop lc w eligible (t # rest) (st, used) =
     (if key (st ! t) \<in> used then pairLoop lc w eligible rest (st, used)
      else (case candidates lc w eligible st used t of
              [] \<Rightarrow> pairLoop lc w eligible rest (st, used)
            | opp # _ \<Rightarrow>
                pairLoop lc w eligible rest
                  (placeGameAtWeek st t opp w,
                   insert (key (st ! opp)) (insert (key (st ! t)) used))))"

definition eligibleAt :: "teamState list \<Rightarrow> nat \<Rightarrow> nat list" where
  "eligibleAt st w = sortWith (cmpEligible st) (filter (isEligible st w) [0..<length st])"

definition scheduleWeek :: "(string \<Rightarrow> string \<Rightarrow> int) \<Rightarrow> nat \<Rightarrow> teamState list \<Rightarrow> teamState list" where
  "scheduleWeek lc w st = fst (pairLoop lc w (eligibleAt st w) (eligibleAt st w) (st, {}))"

fun weekLoop :: "(string \<Rightarrow> string \<Rightarrow> int) \<Rightarrow> nat list \<Rightarrow> teamState list \<Rightarrow> teamState list" where
  "weekLoop lc [] st = st"
| "weekLoop lc (w # ws) st = weekLoop lc ws (scheduleWeek lc w st)"

text \<open>\<open>state.reduce((s, t) => s + t.oocRemaining, 0)\<close>: every addition rounds.\<close>

definition remainingSum :: "teamState list \<Rightarrow> number" where
  "remainingSum st = foldl (\<lambda>s t. numAdd s (oocRemaining t)) (Finite 0) st"

definition initialState :: "'a team_scheme list \<Rightarrow> teamState list" where
  "initialState baseTeams = computeTeamState (deepCloneTeams baseTeams)"

definition finalState :: "(string \<Rightarrow> string \<Rightarrow> int) \<Rightarrow> 'a team_scheme list \<Rightarrow> bool \<Rightarrow> teamState list" where
  "finalState lc baseTeams avoidWeek0 =
     weekLoop lc (weekOrder avoidWeek0) (initialState baseTeams)"

text \<open>
  \<open>working\<close> is reached through the \<open>ref\<close> of each state object, so the array returned in
  \<open>teams\<close> is the list of the final \<open>ref\<close>s.
\<close>

definition tryGenerateSchedule ::
  "(string \<Rightarrow> string \<Rightarrow> int) \<Rightarrow> 'a team_scheme list \<Rightarrow> bool \<Rightarrow> result" where
  "tryGenerateSchedule lc baseTeams avoidWeek0 =
     (let state = finalState lc baseTeams avoidWeek0;
          beforeRemaining = remainingSum (initialState baseTeams);
          afterRemaining = remainingSum state;
          scheduled = numSub beforeRemaining afterRemaining
      in if gtZero beforeRemaining \<and> isZero scheduled then
           \<lparr>ok = False,
            reason = Some ''No valid OOC pairings available under constraints'',
            teams = None, unscheduled = None, scheduledOOC = None, neededOOC = None\<rparr>
         else
           \<lparr>ok = True, reason = None, teams = Some (map ref state),
            unscheduled = Some afterRemaining, scheduledOOC = Some scheduled,
            neededOOC = Some beforeRemaining\<rparr>)"

section \<open>assignByes (lines 462-493)\<close>

text \<open>
  One view per team: the team (\<open>v.t\<close>, here \<open>v_t\<close>) and the week indices of its byes, of
  its empty cells other than week 0, and of its empty week 0.
\<close>

record view =
  v_t :: team
  byes :: "nat list"
  emptiesNon0 :: "nat list"
  empties0 :: "nat list"

fun scanByes :: "nat \<Rightarrow> slot list \<Rightarrow> nat list \<times> nat list \<times> nat list \<Rightarrow> nat list \<times> nat list \<times> nat list" where
  "scanByes i [] acc = acc"
| "scanByes i (w # ws) (bs, en, e0) =
     scanByes (Suc i) ws
       (if w = Bye then (bs @ [i], en, e0)
        else if w = Empty then (if i = 0 then (bs, en, e0 @ [i]) else (bs, en @ [i], e0))
        else (bs, en, e0))"

definition viewOf :: "team \<Rightarrow> view" where
  "viewOf t =
     (case scanByes 0 (weeks t) ([], [], []) of
        (bs, en, e0) \<Rightarrow> \<lparr>v_t = t, byes = bs, emptiesNon0 = en, empties0 = e0\<rparr>)"

definition maxByesPerTeam :: nat where
  "maxByesPerTeam = 3"

text \<open>\<open>xs.shift()\<close> on a non-empty array: the first element, and the array without it.\<close>

definition shiftNon0 :: "view \<Rightarrow> int \<times> view" where
  "shiftNon0 v = (int (hd (emptiesNon0 v)), v\<lparr>emptiesNon0 := tl (emptiesNon0 v)\<rparr>)"

definition shift0 :: "view \<Rightarrow> int \<times> view" where
  "shift0 v = (int (hd (empties0 v)), v\<lparr>empties0 := tl (empties0 v)\<rparr>)"

text \<open>
  The body of the inner loop (lines 482-490) for one view in round \<open>r\<close>. The index written
  at line 488 comes from one of the two lists of empty weeks, so it is an index of the
  array (lemma \<open>coherent_viewOf\<close> below).
\<close>

definition byeStep :: "bool \<Rightarrow> nat \<Rightarrow> view \<Rightarrow> view" where
  "byeStep avoidWeek0 r v =
     (if length (byes v) \<ge> r \<or> length (byes v) \<ge> maxByesPerTeam then v
      else
        (case (if avoidWeek0 \<and> emptiesNon0 v \<noteq> [] then shiftNon0 v
               else if emptiesNon0 v \<noteq> [] then shiftNon0 v
               else if empties0 v \<noteq> [] then shift0 v
               else (- 1, v)) of
           (idx, v1) \<Rightarrow>
             if idx \<ge> 0 then
               v1\<lparr>v_t := (v_t v1)\<lparr>weeks := (weeks (v_t v1))[nat idx := Bye]\<rparr>,
                  byes := byes v1 @ [nat idx]\<rparr>
             else v1))"

text \<open>
  A round visits every view in turn; a step touches only its own view and team. The
  function returns the list as the in-place updates leave it.
\<close>

definition byeRound :: "bool \<Rightarrow> nat \<Rightarrow> view list \<Rightarrow> view list" where
  "byeRound avoidWeek0 r views = map (byeStep avoidWeek0 r) views"

definition assignByes :: "team list \<Rightarrow> bool \<Rightarrow> team list" where
  "assignByes list avoidWeek0 =
     map v_t (foldl (\<lambda>views r. byeRound avoidWeek0 r views) (map viewOf list)
                [1..<Suc maxByesPerTeam])"

section \<open>onGenerate (lines 404-426)\<close>

text \<open>
  The effect of onGenerate on \<open>teams.value\<close>: on success the result's teams replace it
  and receive their byes, otherwise it stays as it was. Status messages are left out.
\<close>

definition onGenerate :: "(string \<Rightarrow> string \<Rightarrow> int) \<Rightarrow> team list \<Rightarrow> bool \<Rightarrow> team list" where
  "onGenerate lc teamsValue avoidWeek0 =
     (if teamsValue = [] then teamsValue
      else
        (let result = tryGenerateSchedule lc teamsValue avoidWeek0
         in if ok result then
              (case teams result of
                 Some ts \<Rightarrow> assignByes ts avoidWeek0
               | None \<Rightarrow> teamsValue)
            else teamsValue))"

section \<open>Notions used to state the properties\<close>

text \<open>
  A cell is open when the matcher may use its week: computeTeamState puts the index of an
  \<open>empty\<close> or \<open>bye\<close> cell into \<open>availableWeeks\<close> (line 263). Every other cell is a game and
  counts towards \<open>totalGames\<close>.
\<close>

definition isOpen :: "slot \<Rightarrow> bool" where
  "isOpen s = (s = Empty \<or> s = Bye)"

definition isGame :: "slot \<Rightarrow> bool" where
  "isGame s = (s \<noteq> Empty \<and> s \<noteq> Bye)"

fun isOocGame :: "slot \<Rightarrow> bool" where
  "isOocGame (OocGame opp away) = True"
| "isOocGame s = False"

definition countGames :: "slot list \<Rightarrow> int" where
  "countGames ws = int (length (filter isGame ws))"

text \<open>
  The count \<open>scheduled\<close> of validateParsedTeams (lines 72-74): conference games and locked
  out-of-conference games. A list with a team for which it exceeds 12 is rejected
  (lines 82-84) and never reaches the scheduler.
\<close>

fun isLockedOOC :: "slot \<Rightarrow> bool" where
  "isLockedOOC (LockedOOC opp away) = True"
| "isLockedOOC s = False"

definition scheduledCount :: "slot list \<Rightarrow> nat" where
  "scheduledCount ws = length (filter (\<lambda>w. w = ConfHome \<or> w = ConfAway \<or> isLockedOOC w) ws)"

definition byeCount :: "slot list \<Rightarrow> nat" where
  "byeCount ws = length (filter (\<lambda>s. s = Bye) ws)"

text \<open>
  The cells of \<open>new\<close> that hold an \<open>oocGame\<close> which \<open>old\<close> does not hold at that week, and
  their number over all teams of two lists.
\<close>

definition newSlotsIn :: "slot list \<Rightarrow> slot list \<Rightarrow> nat" where
  "newSlotsIn old new =
     length (filter (\<lambda>w. isOocGame (new ! w) \<and> new ! w \<noteq> old ! w) [0..<length new])"

definition newOocSlots :: "'a team_scheme list \<Rightarrow> team list \<Rightarrow> nat" where
  "newOocSlots before after =
     sum_list (map (\<lambda>i. newSlotsIn (weeks (before ! i)) (weeks (after ! i))) [0..<length before])"

text \<open>
  The state of one participant after placeGameAtWeek, given the other participant and
  whether this one plays away (lemmas \<open>placeGameAtWeek_first\<close>, \<open>placeGameAtWeek_second\<close>).
\<close>

definition afterGame :: "teamState \<Rightarrow> teamState \<Rightarrow> nat \<Rightarrow> bool \<Rightarrow> teamState" where
  "afterGame s other week isAway =
     s\<lparr>ref := (ref s)\<lparr>weeks := (weeks (ref s))[week := OocGame (st_name other) isAway]\<rparr>,
       totalGames := totalGames s + 1,
       homeGames := (if isAway then homeGames s else homeGames s + 1),
       awayGames := (if isAway then awayGames s + 1 else awayGames s),
       oocRemaining := numSub (oocRemaining s) (Finite 1),
       playedOpp := insert (key other) (playedOpp s),
       availableWeeks := filter (\<lambda>w. w \<noteq> week) (availableWeeks s)\<rparr>"

text \<open>
  The condition under which line 387 calls \<open>placeGameAtWeek(t, opp, w)\<close>: two different
  objects of the array, both with week \<open>w\<close> available, that canScheduleBetween accepts
  (lemma \<open>pairLoop_invariant\<close>).
\<close>

definition placeable :: "teamState list \<Rightarrow> nat \<Rightarrow> nat \<Rightarrow> nat \<Rightarrow> bool" where
  "placeable st t opp w =
     (t < length st \<and> opp < length st \<and> t \<noteq> opp
      \<and> w \<in> set (availableWeeks (st ! t)) \<and> w \<in> set (availableWeeks (st ! opp))
      \<and> canScheduleBetween (st ! t) (st ! opp))"

text \<open>
  Invariants of a matcher pass. A state is well formed when its available weeks are
  indices of open cells and its \<open>totalGames\<close> is the number of game cells.
\<close>

definition wfState :: "teamState \<Rightarrow> bool" where
  "wfState s =
     ((\<forall>w\<in>set (availableWeeks s). w < length (weeks (ref s)) \<and> isOpen (weeks (ref s) ! w))
      \<and> totalGames s = countGames (weeks (ref s)))"

definition wfStates :: "teamState list \<Rightarrow> bool" where
  "wfStates st = (\<forall>i<length st. wfState (st ! i))"

text \<open>
  Relative to the state \<open>s0\<close> a pass started from: identity fields are unchanged and a
  week that is still available holds the cell it held at the start.
\<close>

definition sameTeam :: "teamState \<Rightarrow> teamState \<Rightarrow> bool" where
  "sameTeam s0 s =
     (st_name s = st_name s0 \<and> key s = key s0
      \<and> name (ref s) = name (ref s0) \<and> conference (ref s) = conference (ref s0)
      \<and> oocNeeded (ref s) = oocNeeded (ref s0)
      \<and> length (weeks (ref s)) = length (weeks (ref s0))
      \<and> (\<forall>w\<in>set (availableWeeks s). weeks (ref s) ! w = weeks (ref s0) ! w))"

definition frame :: "teamState list \<Rightarrow> teamState list \<Rightarrow> bool" where
  "frame st0 st = (length st = length st0 \<and> (\<forall>i<length st0. sameTeam (st0 ! i) (st ! i)))"

text \<open>
  Every cell that differs from the start was open at the start and is one half of a game:
  the opponent it names holds, in the same week, the other half with the opposite
  \<open>away\<close> value.
\<close>

definition paired :: "teamState list \<Rightarrow> teamState list \<Rightarrow> bool" where
  "paired st0 st =
     (\<forall>i<length st0. \<forall>w<length (weeks (ref (st0 ! i))).
        weeks (ref (st ! i)) ! w \<noteq> weeks (ref (st0 ! i)) ! w \<longrightarrow>
          isOpen (weeks (ref (st0 ! i)) ! w)
          \<and> (\<exists>j<length st0. j \<noteq> i \<and> w < length (weeks (ref (st0 ! j)))
                \<and> isOpen (weeks (ref (st0 ! j)) ! w)
                \<and> (\<exists>x. weeks (ref (st ! i)) ! w = OocGame (st_name (st0 ! j)) x
                       \<and> weeks (ref (st ! j)) ! w = OocGame (st_name (st0 ! i)) (\<not> x))))"

text \<open>Each team's rise in \<open>totalGames\<close> is the number of its new \<open>oocGame\<close> cells.\<close>

definition account :: "teamState list \<Rightarrow> teamState list \<Rightarrow> bool" where
  "account st0 st =
     (\<forall>i<length st0.
        totalGames (st ! i) - totalGames (st0 ! i)
          = int (newSlotsIn (weeks (ref (st0 ! i))) (weeks (ref (st ! i)))))"

definition gamesSum :: "teamState list \<Rightarrow> int" where
  "gamesSum st = sum_list (map totalGames st)"

text \<open>
  A count is a whole number from 0 to \<open>2 ^ 53\<close>, the range in which every whole number is
  a double and the arithmetic of whole numbers is exact. An input is exact when every
  \<open>oocNeeded\<close> is a count and their sum is at most \<open>2 ^ 53\<close>.
\<close>

fun isCount :: "number \<Rightarrow> bool" where
  "isCount (Finite a) = (a = of_int \<lfloor>a\<rfloor> \<and> 0 \<le> a \<and> a \<le> 9007199254740992)"
| "isCount x = False"

fun countOf :: "number \<Rightarrow> int" where
  "countOf (Finite a) = \<lfloor>a\<rfloor>"
| "countOf x = 0"

definition exactInput :: "'a team_scheme list \<Rightarrow> bool" where
  "exactInput ts =
     (list_all (\<lambda>t. isCount (oocNeeded t)) ts
      \<and> sum_list (map (\<lambda>t. countOf (oocNeeded t)) ts) \<le> 9007199254740992)"

text \<open>No \<open>oocRemaining\<close> of the array is NaN.\<close>

definition noNaN :: "teamState list \<Rightarrow> bool" where
  "noNaN st = (\<forall>i<length st. oocRemaining (st ! i) \<noteq> NaN)"

text \<open>
  Relative to the state a pass started from: every \<open>oocRemaining\<close> is a count, and it
  has dropped by as much as \<open>totalGames\<close> has risen.
\<close>

definition exact :: "teamState list \<Rightarrow> teamState list \<Rightarrow> bool" where
  "exact st0 st =
     (length st = length st0
      \<and> (\<forall>i<length st0.
            isCount (oocRemaining (st ! i))
            \<and> countOf (oocRemaining (st0 ! i)) - countOf (oocRemaining (st ! i))
                = totalGames (st ! i) - totalGames (st0 ! i)))"

definition bounded :: "teamState list \<Rightarrow> teamState list \<Rightarrow> bool" where
  "bounded st0 st =
     (length st = length st0
      \<and> (\<forall>i<length st0. totalGames (st0 ! i) \<le> totalGames (st ! i)
                          \<and> totalGames (st ! i) \<le> max 12 (totalGames (st0 ! i))))"

definition passInv :: "teamState list \<Rightarrow> teamState list \<Rightarrow> bool" where
  "passInv st0 st = (wfStates st \<and> frame st0 st \<and> paired st0 st \<and> account st0 st)"

section \<open>Notions for the bye pass\<close>

text \<open>
  A view agrees with its team when it lists as many byes as the team has and its two lists
  of empty weeks hold, without repetition, the indices of the team's empty cells.
\<close>

definition coherent :: "view \<Rightarrow> bool" where
  "coherent v =
     (length (byes v) = byeCount (weeks (v_t v))
      \<and> distinct (emptiesNon0 v)
      \<and> set (emptiesNon0 v) = {i. i < length (weeks (v_t v)) \<and> i \<noteq> 0 \<and> weeks (v_t v) ! i = Empty}
      \<and> distinct (empties0 v)
      \<and> set (empties0 v) = {i. i < length (weeks (v_t v)) \<and> i = 0 \<and> weeks (v_t v) ! i = Empty})"

text \<open>
  After round \<open>r\<close> a view has at least \<open>r\<close> byes or no empty week left.
\<close>

definition served :: "nat \<Rightarrow> view \<Rightarrow> bool" where
  "served r v = (r \<le> length (byes v) \<or> (emptiesNon0 v = [] \<and> empties0 v = []))"

text \<open>The two assignments of lines 488-489, and the three rounds for one team.\<close>

definition markBye :: "view \<Rightarrow> nat \<Rightarrow> view" where
  "markBye v idx =
     v\<lparr>v_t := (v_t v)\<lparr>weeks := (weeks (v_t v))[idx := Bye]\<rparr>, byes := byes v @ [idx]\<rparr>"

definition byesFor :: "bool \<Rightarrow> team \<Rightarrow> team" where
  "byesFor av t = v_t (byeStep av 3 (byeStep av 2 (byeStep av 1 (viewOf t))))"

text \<open>What one step keeps, for a view that agrees with its team.\<close>

definition stepOk :: "view \<Rightarrow> view \<Rightarrow> bool" where
  "stepOk v v' =
     (coherent v'
      \<and> name (v_t v') = name (v_t v) \<and> conference (v_t v') = conference (v_t v)
      \<and> oocNeeded (v_t v') = oocNeeded (v_t v)
      \<and> length (weeks (v_t v')) = length (weeks (v_t v))
      \<and> (\<forall>w<length (weeks (v_t v)).
            weeks (v_t v') ! w = weeks (v_t v) ! w
            \<or> (weeks (v_t v) ! w = Empty \<and> weeks (v_t v') ! w = Bye))
      \<and> byeCount (weeks (v_t v)) \<le> byeCount (weeks (v_t v'))
      \<and> byeCount (weeks (v_t v')) \<le> max 3 (byeCount (weeks (v_t v))))"

section \<open>Counting the games of a pass\<close>

text \<open>
  An observer of the two nested iterations of lines 373-392: the number of times line 387 runs. It follows
  pairLoop and weekLoop step by step and counts instead of returning the state.
\<close>

fun pairCount ::
  "(string \<Rightarrow> string \<Rightarrow> int) \<Rightarrow> nat \<Rightarrow> nat list \<Rightarrow> nat list \<Rightarrow> teamState list \<times> string set \<Rightarrow> nat" where
  "pairCount lc w eligible [] (st, used) = 0"
| "pairCount lc w eligible (t # rest) (st, used) =
     (if key (st ! t) \<in> used then pairCount lc w eligible rest (st, used)
      else (case candidates lc w eligible st used t of
              [] \<Rightarrow> pairCount lc w eligible rest (st, used)
            | opp # _ \<Rightarrow>
                Suc (pairCount lc w eligible rest
                  (placeGameAtWeek st t opp w,
                   insert (key (st ! opp)) (insert (key (st ! t)) used)))))"

fun weekCount :: "(string \<Rightarrow> string \<Rightarrow> int) \<Rightarrow> nat list \<Rightarrow> teamState list \<Rightarrow> nat" where
  "weekCount lc [] st = 0"
| "weekCount lc (w # ws) st =
     pairCount lc w (eligibleAt st w) (eligibleAt st w) (st, {})
       + weekCount lc ws (scheduleWeek lc w st)"

definition gamesPlaced :: "(string \<Rightarrow> string \<Rightarrow> int) \<Rightarrow> 'a team_scheme list \<Rightarrow> bool \<Rightarrow> nat" where
  "gamesPlaced lc baseTeams avoidWeek0 =
     weekCount lc (weekOrder avoidWeek0) (initialState baseTeams)"

section \<open>Sample inputs\<close>

text \<open>A host whose \<open>localeCompare\<close> orders strings by code units.\<close>

definition codeUnitCompare :: "string \<Rightarrow> string \<Rightarrow> int" where
  "codeUnitCompare a b = (if a < b then - 1 else if a = b then 0 else 1)"

text \<open>A team that needs the whole number \<open>k\<close> of games.\<close>

definition mkTeam :: "string \<Rightarrow> string \<Rightarrow> int \<Rightarrow> slot list \<Rightarrow> team" where
  "mkTeam n c k ws = \<lparr>name = n, conference = c, oocNeeded = ofInt k, weeks = ws\<rparr>"

text \<open>Five states with different home and away counts, to compare with pickHomeAway.\<close>

definition sideStates :: "teamState list" where
  "sideStates = computeTeamState
     [mkTeam ''Alpha'' ''East'' 0 [ConfHome, ConfAway],
      mkTeam ''Beta'' ''East'' 0 [ConfAway, ConfAway],
      mkTeam ''Gamma'' ''West'' 0 [ConfHome, ConfHome],
      mkTeam ''Delta'' ''West'' 0 [ConfHome, ConfAway],
      mkTeam ''Epsilon'' ''West'' 0 [ConfHome, Empty]]"

text \<open>Three teams of one conference that each need a game: no pair is allowed.\<close>

definition oneConference :: "team list" where
  "oneConference =
     [mkTeam ''Alpha'' ''East'' 1 (replicate 14 Empty),
      mkTeam ''Beta'' ''East'' 1 (replicate 14 Empty),
      mkTeam ''Gamma'' ''East'' 1 (replicate 14 Empty)]"

text \<open>Two teams of different conferences, fourteen empty weeks, one game needed each.\<close>

definition twoTeams :: "team list" where
  "twoTeams =
     [mkTeam ''Alpha'' ''East'' 1 (replicate 14 Empty),
      mkTeam ''Beta'' ''West'' 1 (replicate 14 Empty)]"

text \<open>One team needs two games and the only possible opponent needs one.\<close>

definition partialTeams :: "team list" where
  "partialTeams =
     [mkTeam ''Alpha'' ''East'' 2 (replicate 14 Empty),
      mkTeam ''Beta'' ''West'' 1 (replicate 14 Empty)]"

text \<open>A team one game short of twelve and an opponent two games short.\<close>

definition fullSlate :: "team list" where
  "fullSlate =
     [mkTeam ''Alpha'' ''East'' 2 (replicate 11 ConfHome @ replicate 3 Empty),
      mkTeam ''Beta'' ''West'' 2 (replicate 10 ConfAway @ replicate 4 Empty)]"

text \<open>What the matcher returns for \<open>twoTeams\<close> when week 0 is avoided.\<close>

definition twoTeamsOut :: "team list" where
  "twoTeamsOut =
     [mkTeam ''Alpha'' ''East'' 1 (Empty # OocGame ''Beta'' False # replicate 12 Empty),
      mkTeam ''Beta'' ''West'' 1 (Empty # OocGame ''Alpha'' True # replicate 12 Empty)]"

text \<open>Two teams whose week 1 is a bye in the input.\<close>

definition byeTeams :: "team list" where
  "byeTeams =
     [mkTeam ''Alpha'' ''East'' 1 (Empty # Bye # replicate 12 Empty),
      mkTeam ''Beta'' ''West'' 1 (Empty # Bye # replicate 12 Empty)]"

text \<open>What the matcher returns for \<open>fullSlate\<close>: one game, in week 11.\<close>

definition fullSlateOut :: "team list" where
  "fullSlateOut =
     [mkTeam ''Alpha'' ''East'' 2
        (replicate 11 ConfHome @ [OocGame ''Beta'' True, Empty, Empty]),
      mkTeam ''Beta'' ''West'' 2
        (replicate 10 ConfAway @ [Empty, OocGame ''Alpha'' False, Empty, Empty])]"

text \<open>
  Two teams of different conferences of which the first needs \<open>2 ^ 53\<close> games, and two of
  which the first needs \<open>2 ^ 54\<close>. The CSV fields \<open>9007199254740992\<close> and
  \<open>18014398509481984\<close> are finite numbers, which is all parseCSVToTeams asks for.
\<close>

definition oddDemand :: "team list" where
  "oddDemand =
     [mkTeam ''Alpha'' ''East'' 9007199254740992 (replicate 14 Empty),
      mkTeam ''Beta'' ''West'' 1 (replicate 14 Empty)]"

definition hugeDemand :: "team list" where
  "hugeDemand =
     [mkTeam ''Alpha'' ''East'' 18014398509481984 (replicate 14 Empty),
      mkTeam ''Beta'' ''West'' 1 (replicate 14 Empty)]"

section \<open>Lemmas\<close>

subsection \<open>Rounding\<close>

text \<open>
  Rounding a whole number can be computed in integer arithmetic, and a whole number of
  magnitude up to \<open>2 ^ 53\<close> is a double. The equations marked as code equations are the
  ones by which a rounding is evaluated.
\<close>

declare halvings.simps [simp del] doublings.simps [simp del] halvingsInt.simps [simp del]

lemma pow2_pos: "0 < pow2 e"
  by (simp add: pow2_def)

lemma halvings_bounds: "1 \<le> a \<Longrightarrow> 2 ^ halvings a \<le> a \<and> a < 2 ^ Suc (halvings a)"
proof (induction a rule: halvings.induct)
  case (1 a)
  show ?case
  proof (cases "a < 2")
    case True
    then show ?thesis using 1(2) by (simp add: halvings.simps [of a])
  next
    case False
    then have "1 \<le> a / 2" by simp
    from 1(1) [OF False this] show ?thesis
      using False by (simp add: halvings.simps [of a]) 
  qed
qed

lemma halvingsInt_bounds: "1 \<le> n \<Longrightarrow> 2 ^ halvingsInt n \<le> n \<and> n < 2 ^ Suc (halvingsInt n)"
proof (induction n rule: halvingsInt.induct)
  case (1 n)
  show ?case
  proof (cases "n < 2")
    case True
    then show ?thesis using 1(2) by (simp add: halvingsInt.simps [of n])
  next
    case False
    then have "1 \<le> n div 2" by simp
    from 1(1) [OF False this]
    have "2 ^ halvingsInt (n div 2) \<le> n div 2" "n div 2 < 2 ^ Suc (halvingsInt (n div 2))"
      by simp_all
    then show ?thesis
      using False by (simp add: halvingsInt.simps [of n]) linarith
  qed
qed

lemma power_two_unique:
  fixes x :: "'a::linordered_idom"
  assumes "2 ^ h \<le> x" "x < 2 ^ Suc h" "2 ^ k \<le> x" "x < 2 ^ Suc k"
  shows "h = k"
proof (rule ccontr)
  assume "h \<noteq> k"
  then consider "Suc h \<le> k" | "Suc k \<le> h" by linarith
  then show False
  proof cases
    case 1
    then have "(2::'a) ^ Suc h \<le> 2 ^ k" by (intro power_increasing) simp_all
    then show False using assms by linarith
  next
    case 2
    then have "(2::'a) ^ Suc k \<le> 2 ^ h" by (intro power_increasing) simp_all
    then show False using assms by linarith
  qed
qed

lemma halvings_of_int: assumes "1 \<le> n" shows "halvings (of_int n) = halvingsInt n"
proof -
  have a: "2 ^ halvings (of_int n) \<le> (of_int n :: rat)" "(of_int n :: rat) < 2 ^ Suc (halvings (of_int n))"
    using halvings_bounds [of "of_int n"] assms by simp_all
  have "(of_int (2 ^ halvingsInt n) :: rat) \<le> of_int n" "(of_int n :: rat) < of_int (2 ^ Suc (halvingsInt n))"
    using halvingsInt_bounds [OF assms] by (simp_all only: of_int_le_iff of_int_less_iff)
  then have b: "2 ^ halvingsInt n \<le> (of_int n :: rat)" "(of_int n :: rat) < 2 ^ Suc (halvingsInt n)"
    by simp_all
  from a b show ?thesis by (rule power_two_unique)
qed

lemma roundHalfEven_of_int: "roundHalfEven (of_int m) = m"
  by (simp add: roundHalfEven_def)

lemma roundHalfEven_div:
  assumes "0 < k"
  shows "roundHalfEven (of_int n / of_int k) = roundHalfEvenDiv n k"
proof -
  have fl: "\<lfloor>(of_int n :: rat) / of_int k\<rfloor> = n div k"
    by (simp add: floor_divide_of_int_eq)
  have "(of_int n :: rat) = of_int (n div k) * of_int k + of_int (n mod k)"
    by (simp flip: of_int_mult of_int_add)
  then have fr: "(of_int n :: rat) / of_int k - of_int (n div k) = of_int (n mod k) / of_int k"
    using assms by (simp add: field_simps)
  have lt: "(of_int (n mod k) :: rat) / of_int k < 1 / 2 \<longleftrightarrow> 2 * (n mod k) < k"
  proof -
    have "(of_int (n mod k) :: rat) / of_int k < 1 / 2 \<longleftrightarrow> (of_int (2 * (n mod k)) :: rat) < of_int k"
      using assms by (simp add: field_simps)
    then show ?thesis by (simp only: of_int_less_iff)
  qed
  have gt: "1 / 2 < (of_int (n mod k) :: rat) / of_int k \<longleftrightarrow> k < 2 * (n mod k)"
  proof -
    have "1 / 2 < (of_int (n mod k) :: rat) / of_int k \<longleftrightarrow> (of_int k :: rat) < of_int (2 * (n mod k))"
      using assms by (simp add: field_simps)
    then show ?thesis by (simp only: of_int_less_iff)
  qed
  show ?thesis
    unfolding roundHalfEven_def roundHalfEvenDiv_def fl fr lt gt ..
qed

lemma roundMagnitude_exact:
  assumes "a / ulp a = of_int m"
  shows "roundMagnitude a = a"
proof -
  have "ulp a \<noteq> 0" using pow2_pos [of "exponentOf a - 52"] by (simp add: ulp_def)
  then have "a = of_int m * ulp a" using assms by (simp add: field_simps)
  then show ?thesis by (simp add: roundMagnitude_def assms roundHalfEven_of_int)
qed

lemma ulp_of_int: "1 \<le> n \<Longrightarrow> ulp (of_int n) = pow2 (int (halvingsInt n) - 52)"
  by (simp add: ulp_def exponentOf_def halvings_of_int)

lemma roundMagnitude_whole_small:
  assumes "1 \<le> n" "n \<le> 9007199254740992"
  shows "roundMagnitude (of_int n) = of_int n"
proof -
  let ?h = "halvingsInt n"
  have lo: "2 ^ ?h \<le> n" using halvingsInt_bounds [OF assms(1)] by simp
  have "(2::int) ^ ?h \<le> 2 ^ 53" using lo assms(2) by simp
  then have h53: "?h \<le> 53" by (simp add: power_le_imp_le_exp del: power_numeral)
  show ?thesis
  proof (cases "?h \<le> 52")
    case True
    then have "ulp (of_int n) = 1 / 2 ^ (52 - ?h)"
      using assms(1) by (auto simp add: ulp_of_int pow2_def nat_diff_distrib')
    then have "of_int n / ulp (of_int n) = (of_int (n * 2 ^ (52 - ?h)) :: rat)"
      by simp
    then show ?thesis by (rule roundMagnitude_exact)
  next
    case False
    then have h: "?h = 53" using h53 by simp
    then have "n = 9007199254740992" using lo assms(2) by simp
    moreover have "ulp (of_int n) = 2" using assms(1) h by (simp add: ulp_of_int pow2_def)
    ultimately have "of_int n / ulp (of_int n) = (of_int 4503599627370496 :: rat)"
      by simp
    then show ?thesis by (rule roundMagnitude_exact)
  qed
qed

lemma roundMagnitude_whole_big:
  assumes "9007199254740992 < n"
  shows "roundMagnitude (of_int n)
         = of_int (roundHalfEvenDiv n (2 ^ (halvingsInt n - 52)) * 2 ^ (halvingsInt n - 52))"
proof -
  let ?h = "halvingsInt n"
  have n1: "1 \<le> n" using assms by simp
  have hi: "n < 2 ^ Suc ?h" using halvingsInt_bounds [OF n1] by simp
  have "(2::int) ^ 53 < 2 ^ Suc ?h" using hi assms by simp
  then have "53 < Suc ?h" by (simp only: power_strict_increasing_iff) 
  then have h: "52 \<le> ?h" by simp
  then have u: "ulp (of_int n) = of_int (2 ^ (?h - 52))"
    using n1 by (simp add: ulp_of_int pow2_def nat_diff_distrib')
  have "(0::int) < 2 ^ (?h - 52)" by simp
  from roundHalfEven_div [OF this, of n] show ?thesis
    by (simp add: roundMagnitude_def u)
qed

lemma roundMagnitude_code [code]:
  "roundMagnitude a =
     (if a = of_int \<lfloor>a\<rfloor> \<and> 0 < a then of_int (roundWholeMagnitude \<lfloor>a\<rfloor>)
      else of_int (roundHalfEven (a / ulp a)) * ulp a)"
proof (cases "a = of_int \<lfloor>a\<rfloor> \<and> 0 < a")
  case True
  then obtain n where a: "a = of_int n" and n: "1 \<le> n"
    by (metis of_int_0_less_iff zless_imp_add1_zle zero_less_floor add_0)
  have "roundMagnitude (of_int n) = of_int (roundWholeMagnitude n)"
    using roundMagnitude_whole_small [OF n] roundMagnitude_whole_big [of n]
    by (simp add: roundWholeMagnitude_def)
  then show ?thesis using True a by simp
next
  case False
  then show ?thesis by (simp only: roundMagnitude_def False if_False)
qed

lemma overflowBound_code [code]:
  "overflowBound = 179769313486231590772930519078902473361797697894230657273430081157732675805500963132708477322407536021120113879871393357658789768814416622492847430639474124377767893424865485276302219601246094119453082952085005768838150682342462881473913110540827237163350510684586298239947245938479716304835356329624224137216"
  by (simp add: overflowBound_def)

lemma roundDouble_whole:
  assumes "\<bar>n\<bar> \<le> 9007199254740992"
  shows "roundDouble (of_int n) = Finite (of_int n)"
proof (cases "n = 0")
  case True
  then show ?thesis by (simp add: roundDouble_def)
next
  case False
  then have "1 \<le> \<bar>n\<bar>" by simp
  from roundMagnitude_whole_small [OF this assms]
  have m: "roundMagnitude \<bar>of_int n\<bar> = \<bar>of_int n\<bar>" by simp
  have "(of_int \<bar>n\<bar> :: rat) \<le> of_int 9007199254740992"
    using assms by (simp only: of_int_le_iff)
  then have lt: "\<not> overflowBound \<le> \<bar>of_int n\<bar>"
    by (simp add: overflowBound_code)
  have "(if (of_int n :: rat) < 0 then - \<bar>of_int n\<bar> else \<bar>of_int n\<bar>) = (of_int n :: rat)"
    by simp
  then show ?thesis
    unfolding roundDouble_def m using False lt by (simp only: if_False of_int_eq_0_iff)
qed

lemma roundDouble_code [code]:
  "roundDouble x =
     (if x = of_int \<lfloor>x\<rfloor> \<and> \<bar>x\<bar> \<le> 9007199254740992 then Finite x
      else if overflowBound \<le> roundMagnitude \<bar>x\<bar> then (if x < 0 then NegInf else PosInf)
      else Finite (if x < 0 then - roundMagnitude \<bar>x\<bar> else roundMagnitude \<bar>x\<bar>))"
proof (cases "x = of_int \<lfloor>x\<rfloor> \<and> \<bar>x\<bar> \<le> 9007199254740992")
  case True
  then have "\<bar>\<lfloor>x\<rfloor>\<bar> \<le> 9007199254740992"
    by (metis of_int_abs of_int_le_iff of_int_numeral)
  from roundDouble_whole [OF this] True show ?thesis by simp
next
  case False
  then have "x \<noteq> 0" by auto
  then show ?thesis by (simp only: roundDouble_def False if_False)
qed

lemma numSub_whole:
  assumes "\<bar>a - b\<bar> \<le> 9007199254740992"
  shows "numSub (ofInt a) (ofInt b) = ofInt (a - b)"
  using roundDouble_whole [OF assms] by (simp add: numSub_def ofInt_def)

lemma numAdd_whole:
  assumes "\<bar>a + b\<bar> \<le> 9007199254740992"
  shows "numAdd (ofInt a) (ofInt b) = ofInt (a + b)"
  using roundDouble_whole [OF assms] by (simp add: ofInt_def)

lemma roundMagnitude_nonneg: "0 \<le> a \<Longrightarrow> 0 \<le> roundMagnitude a"
proof -
  assume a: "0 \<le> a"
  have u: "0 < ulp a" by (simp add: ulp_def pow2_pos)
  then have "0 \<le> a / ulp a" using a by simp
  then have "0 \<le> \<lfloor>a / ulp a\<rfloor>" by simp
  then have "0 \<le> roundHalfEven (a / ulp a)" by (simp add: roundHalfEven_def)
  then show ?thesis using u by (simp add: roundMagnitude_def)
qed

lemma maxZero_negative: "x < 0 \<Longrightarrow> maxZero (roundDouble x) = Finite 0"
  using roundMagnitude_nonneg [of "\<bar>x\<bar>"] by (simp add: roundDouble_def)

lemma isCount_ofInt: "isCount x \<longleftrightarrow> (\<exists>k. x = ofInt k \<and> 0 \<le> k \<and> k \<le> 9007199254740992)"
proof
  assume c: "isCount x"
  then obtain a where x: "x = Finite a" by (cases x) simp_all
  then have a: "a = of_int \<lfloor>a\<rfloor>" "0 \<le> a" "a \<le> 9007199254740992" using c by simp_all
  have "0 \<le> \<lfloor>a\<rfloor>" using a(2) by simp
  moreover have "\<lfloor>a\<rfloor> \<le> 9007199254740992" using a(3) by (simp add: floor_le_iff)
  ultimately show "\<exists>k. x = ofInt k \<and> 0 \<le> k \<and> k \<le> 9007199254740992"
    using x a(1) unfolding ofInt_def by blast
next
  assume "\<exists>k. x = ofInt k \<and> 0 \<le> k \<and> k \<le> 9007199254740992"
  then obtain k where "x = ofInt k" "0 \<le> k" "k \<le> 9007199254740992" by blast
  then show "isCount x" by (simp add: ofInt_def)
qed

lemma countOf_ofInt: "countOf (ofInt k) = k"
  by (simp add: ofInt_def)

lemma gtZero_ofInt: "gtZero (ofInt k) \<longleftrightarrow> 0 < k"
  by (simp add: ofInt_def)

lemma leZero_ofInt: "leZero (ofInt k) \<longleftrightarrow> k \<le> 0"
  by (simp add: ofInt_def)


lemma ofInt_eq: "ofInt a = ofInt b \<longleftrightarrow> a = b"
  by (simp add: ofInt_def)

subsection \<open>The effect of placeGameAtWeek\<close>

lemma length_modify: "length (modify i f st) = length st"
  by (simp add: modify_def)

lemma modify_same: "i < length st \<Longrightarrow> modify i f st ! i = f (st ! i)"
  by (simp add: modify_def)

lemma modify_other: "k \<noteq> i \<Longrightarrow> modify i f st ! k = st ! k"
  by (simp add: modify_def)

lemmas stmt_defs = writeGame_def incTotalGames_def incHomeGames_def incAwayGames_def
  decOocRemaining_def addPlayedOpp_def removeWeek_def

lemmas modify_simps = length_modify modify_same modify_other

lemma pickHomeAway_cases: "pickHomeAway st a b = (a, b) \<or> pickHomeAway st a b = (b, a)"
  by (simp add: pickHomeAway_def)

lemma length_placeGameAtWeek: "length (placeGameAtWeek st a b w) = length st"
  by (simp add: placeGameAtWeek_def Let_def stmt_defs length_modify)

lemma placeGameAtWeek_other:
  assumes "k \<noteq> a" "k \<noteq> b"
  shows "placeGameAtWeek st a b w ! k = st ! k"
proof -
  from pickHomeAway_cases [of st a b] show ?thesis
  proof
    assume "pickHomeAway st a b = (a, b)"
    with assms show ?thesis
      by (simp add: placeGameAtWeek_def Let_def stmt_defs modify_simps)
  next
    assume "pickHomeAway st a b = (b, a)"
    with assms show ?thesis
      by (simp add: placeGameAtWeek_def Let_def stmt_defs modify_simps)
  qed
qed

lemma placeGameAtWeek_first:
  assumes "a \<noteq> b" "a < length st" "b < length st"
  shows "placeGameAtWeek st a b w ! a = afterGame (st ! a) (st ! b) w (fst (pickHomeAway st a b) \<noteq> a)"
proof -
  have ba: "b \<noteq> a" using assms by simp
  from pickHomeAway_cases [of st a b] show ?thesis
  proof
    assume "pickHomeAway st a b = (a, b)"
    with assms ba show ?thesis
      by (simp add: placeGameAtWeek_def Let_def stmt_defs modify_simps afterGame_def)
  next
    assume "pickHomeAway st a b = (b, a)"
    with assms ba show ?thesis
      by (simp add: placeGameAtWeek_def Let_def stmt_defs modify_simps afterGame_def)
  qed
qed

lemma placeGameAtWeek_second:
  assumes "a \<noteq> b" "a < length st" "b < length st"
  shows "placeGameAtWeek st a b w ! b = afterGame (st ! b) (st ! a) w (fst (pickHomeAway st a b) = a)"
proof -
  have ba: "b \<noteq> a" using assms by simp
  from pickHomeAway_cases [of st a b] show ?thesis
  proof
    assume "pickHomeAway st a b = (a, b)"
    with assms ba show ?thesis
      by (simp add: placeGameAtWeek_def Let_def stmt_defs modify_simps afterGame_def)
  next
    assume "pickHomeAway st a b = (b, a)"
    with assms ba show ?thesis
      by (simp add: placeGameAtWeek_def Let_def stmt_defs modify_simps afterGame_def)
  qed
qed

lemma set_insertSorted: "set (insertSorted cmp x ys) = insert x (set ys)"
  by (induction ys) auto

lemma set_sortWith: "set (sortWith cmp xs) = set xs"
  by (induction xs) (simp_all add: sortWith_def set_insertSorted)

lemma set_eligibleAt:
  "set (eligibleAt st w) = {t. t < length st \<and> isEligible st w t}"
  by (auto simp add: eligibleAt_def set_sortWith)

lemma candidates_head:
  assumes "candidates lc w eligible st used t = opp # rest"
  shows "opp \<in> set eligible \<and> opp \<noteq> t \<and> key (st ! opp) \<notin> used
         \<and> w \<in> set (availableWeeks (st ! opp)) \<and> canScheduleBetween (st ! t) (st ! opp)"
proof -
  have "opp \<in> set (candidates lc w eligible st used t)"
    using assms by simp
  then show ?thesis
    by (simp add: candidates_def set_sortWith)
qed

lemma key_afterGame: "key (afterGame s other w x) = key s"
  by (simp add: afterGame_def)

lemma key_placeGameAtWeek:
  assumes "a \<noteq> b" "a < length st" "b < length st"
  shows "key (placeGameAtWeek st a b w ! k) = key (st ! k)"
proof (cases "k = a \<or> k = b")
  case True
  then show ?thesis
    using assms by (auto simp add: placeGameAtWeek_first placeGameAtWeek_second key_afterGame)
next
  case False
  then show ?thesis by (simp add: placeGameAtWeek_other)
qed

lemma pairLoop_invariant:
  assumes step: "\<And>s t opp. P s \<Longrightarrow> placeable s t opp w \<Longrightarrow> P (placeGameAtWeek s t opp w)"
    and "P st"
    and "set eligible \<subseteq> {..<length st}"
    and "set todo \<subseteq> {..<length st}"
    and "\<forall>i\<in>set todo. key (st ! i) \<notin> used \<longrightarrow> w \<in> set (availableWeeks (st ! i))"
  shows "P (fst (pairLoop lc w eligible todo (st, used)))"
  using assms(2-)
proof (induction todo arbitrary: st used)
  case Nil
  then show ?case by simp
next
  case (Cons t rest)
  show ?case
  proof (cases "key (st ! t) \<in> used")
    case True
    then show ?thesis using Cons by simp
  next
    case unused: False
    show ?thesis
    proof (cases "candidates lc w eligible st used t")
      case Nil
      then show ?thesis using unused Cons by simp
    next
      case first: (Cons opp more)
      note cand = candidates_head [OF first]
      let ?st = "placeGameAtWeek st t opp w"
      let ?used = "insert (key (st ! opp)) (insert (key (st ! t)) used)"
      have t: "t < length st" using Cons.prems(3) by simp
      have opp: "opp < length st" using cand Cons.prems(2) by auto
      have ne: "t \<noteq> opp" using cand by auto
      have avail: "w \<in> set (availableWeeks (st ! t))"
        using Cons.prems(4) unused by simp
      have pl: "placeable st t opp w"
        using t opp ne avail cand by (simp add: placeable_def)
      have P': "P ?st" using step [OF Cons.prems(1) pl] .
      have len: "length ?st = length st" by (simp add: length_placeGameAtWeek)
      have rest: "\<forall>i\<in>set rest. key (?st ! i) \<notin> ?used \<longrightarrow> w \<in> set (availableWeeks (?st ! i))"
      proof (intro ballI impI)
        fix i assume i: "i \<in> set rest" and k: "key (?st ! i) \<notin> ?used"
        have keq: "key (?st ! i) = key (st ! i)"
          using ne t opp by (rule key_placeGameAtWeek)
        have "i \<noteq> t" "i \<noteq> opp" using k keq by auto
        then have "?st ! i = st ! i" by (simp add: placeGameAtWeek_other)
        moreover have "key (st ! i) \<notin> used" using k keq by simp
        ultimately show "w \<in> set (availableWeeks (?st ! i))"
          using Cons.prems(4) i by simp
      qed
      have "P (fst (pairLoop lc w eligible rest (?st, ?used)))"
        by (rule Cons.IH [OF P']) (use Cons.prems len rest in auto)
      then show ?thesis using unused first by simp
    qed
  qed
qed

lemma scheduleWeek_invariant:
  assumes step: "\<And>s t opp. P s \<Longrightarrow> placeable s t opp w \<Longrightarrow> P (placeGameAtWeek s t opp w)"
    and "P st"
  shows "P (scheduleWeek lc w st)"
  unfolding scheduleWeek_def
  by (rule pairLoop_invariant [where P = P, OF step assms(2)])
     (auto simp add: set_eligibleAt isEligible_def)

lemma weekLoop_invariant:
  assumes step: "\<And>s t opp w. P s \<Longrightarrow> placeable s t opp w \<Longrightarrow> P (placeGameAtWeek s t opp w)"
    and "P st"
  shows "P (weekLoop lc ws st)"
  using assms(2)
proof (induction ws arbitrary: st)
  case Nil
  then show ?case by simp
next
  case (Cons w ws)
  have "P (scheduleWeek lc w st)"
    using step Cons.prems by (rule scheduleWeek_invariant)
  then show ?case using Cons.IH by simp
qed

lemma countGames_update:
  "w < length ws \<Longrightarrow> \<not> isGame (ws ! w) \<Longrightarrow> isGame g \<Longrightarrow> countGames (ws[w := g]) = countGames ws + 1"
proof (induction ws arbitrary: w)
  case Nil
  then show ?case by simp
next
  case (Cons x xs)
  then show ?case
    by (cases w) (simp_all add: countGames_def)
qed

lemma newSlotsIn_card:
  "newSlotsIn old new = card {w. w < length new \<and> isOocGame (new ! w) \<and> new ! w \<noteq> old ! w}"
  by (simp add: newSlotsIn_def length_filter_conv_card cong: conj_cong)

lemma newSlotsIn_update:
  assumes "w < length new" "new ! w = old ! w" "isOocGame g" "g \<noteq> old ! w"
  shows "newSlotsIn old (new[w := g]) = newSlotsIn old new + 1"
proof -
  let ?A = "{v. v < length new \<and> isOocGame (new ! v) \<and> new ! v \<noteq> old ! v}"
  have "{v. v < length (new[w := g]) \<and> isOocGame (new[w := g] ! v) \<and> new[w := g] ! v \<noteq> old ! v}
        = insert w ?A"
    using assms by (auto simp add: nth_list_update)
  moreover have "w \<notin> ?A" using assms by simp
  moreover have "finite ?A" by simp
  ultimately show ?thesis by (simp add: newSlotsIn_card)
qed

lemma newSlotsIn_same: "newSlotsIn ws ws = 0"
  by (simp add: newSlotsIn_def)

subsection \<open>scanWeeks\<close>

lemma scanWeek_total:
  "scanWeek i w (tg, hg, ag, lk, po, aw) = (tg', hg', ag', lk', po', aw') \<Longrightarrow>
   tg' = tg + countGames [w] \<and> set aw' = set aw \<union> (if isOpen w then {i} else {})"
  by (cases w) (auto simp add: countGames_def isGame_def isOpen_def)

lemma scanWeeks_total:
  "scanWeeks i ws (tg, hg, ag, lk, po, aw) = (tg', hg', ag', lk', po', aw') \<Longrightarrow>
   tg' = tg + countGames ws \<and> set aw' = set aw \<union> {i + k |k. k < length ws \<and> isOpen (ws ! k)}"
proof (induction ws arbitrary: i tg hg ag lk po aw)
  case Nil
  then show ?case by (simp add: countGames_def)
next
  case (Cons w ws)
  obtain tg1 hg1 ag1 lk1 po1 aw1 where
    one: "scanWeek i w (tg, hg, ag, lk, po, aw) = (tg1, hg1, ag1, lk1, po1, aw1)"
    by (metis prod_cases6)
  have rest: "scanWeeks (Suc i) ws (tg1, hg1, ag1, lk1, po1, aw1) = (tg', hg', ag', lk', po', aw')"
    using Cons.prems one by simp
  note a = scanWeek_total [OF one] and b = Cons.IH [OF rest]
  have tg: "tg' = tg + countGames (w # ws)"
    using a b by (simp add: countGames_def)
  have "{i + k |k. k < length (w # ws) \<and> isOpen ((w # ws) ! k)}
        = (if isOpen w then {i} else {}) \<union> {Suc i + k |k. k < length ws \<and> isOpen (ws ! k)}"
  proof (intro set_eqI iffI)
    fix x assume "x \<in> {i + k |k. k < length (w # ws) \<and> isOpen ((w # ws) ! k)}"
    then obtain k where k: "x = i + k" "k < length (w # ws)" "isOpen ((w # ws) ! k)" by blast
    show "x \<in> (if isOpen w then {i} else {}) \<union> {Suc i + k |k. k < length ws \<and> isOpen (ws ! k)}"
    proof (cases k)
      case 0
      then show ?thesis using k by simp
    next
      case (Suc m)
      then have "x = Suc i + m" "m < length ws" "isOpen (ws ! m)" using k by simp_all
      then show ?thesis by blast
    qed
  next
    fix x assume "x \<in> (if isOpen w then {i} else {}) \<union> {Suc i + k |k. k < length ws \<and> isOpen (ws ! k)}"
    then consider "isOpen w" "x = i" | m where "x = Suc i + m" "m < length ws" "isOpen (ws ! m)"
      by (auto split: if_splits)
    then show "x \<in> {i + k |k. k < length (w # ws) \<and> isOpen ((w # ws) ! k)}"
    proof cases
      case 1
      then have "x = i + 0 \<and> 0 < length (w # ws) \<and> isOpen ((w # ws) ! 0)" by simp
      then show ?thesis by blast
    next
      case 2
      then have "x = i + Suc m \<and> Suc m < length (w # ws) \<and> isOpen ((w # ws) ! Suc m)" by simp
      then show ?thesis by blast
    qed
  qed
  then show ?case using tg a b by auto
qed

lemma wfState_teamStateOf: "wfState (teamStateOf t)"
proof -
  obtain tg hg ag lk po aw where
    sc: "scanWeeks 0 (weeks t) (0, 0, 0, 0, {}, []) = (tg, hg, ag, lk, po, aw)"
    by (metis prod_cases6)
  from scanWeeks_total [OF sc] show ?thesis
    by (auto simp add: wfState_def teamStateOf_def sc)
qed

lemma wfStates_computeTeamState: "wfStates (computeTeamState ts)"
  by (simp add: wfStates_def computeTeamState_def wfState_teamStateOf)

text \<open>
  In a well-formed array the two writes of a placement are inside the arrays of weeks.
  Well-formedness holds at the start and is kept by every placement
  (\<open>wfStates_place\<close>), so it holds wherever line 387 runs.
\<close>

lemma availableWeeks_in_range:
  assumes "wfStates st" "placeable st t opp w"
  shows "w < length (weeks (ref (st ! t))) \<and> w < length (weeks (ref (st ! opp)))"
  using assms by (simp add: wfStates_def wfState_def placeable_def)

lemma afterGame_simps:
  "weeks (ref (afterGame s other w x)) = (weeks (ref s))[w := OocGame (st_name other) x]"
  "availableWeeks (afterGame s other w x) = filter (\<lambda>v. v \<noteq> w) (availableWeeks s)"
  "totalGames (afterGame s other w x) = totalGames s + 1"
  "oocRemaining (afterGame s other w x) = numSub (oocRemaining s) (Finite 1)"
  "st_name (afterGame s other w x) = st_name s"
  "key (afterGame s other w x) = key s"
  "name (ref (afterGame s other w x)) = name (ref s)"
  "conference (ref (afterGame s other w x)) = conference (ref s)"
  "oocNeeded (ref (afterGame s other w x)) = oocNeeded (ref s)"
  by (simp_all add: afterGame_def)

lemma isOpen_not_game: "isOpen v \<Longrightarrow> \<not> isGame v"
  by (auto simp add: isOpen_def isGame_def)

lemma wfState_afterGame:
  assumes "wfState s" "w \<in> set (availableWeeks s)"
  shows "wfState (afterGame s other w x)"
proof -
  have w: "w < length (weeks (ref s))" "isOpen (weeks (ref s) ! w)"
    using assms by (auto simp add: wfState_def)
  have "countGames ((weeks (ref s))[w := OocGame (st_name other) x]) = countGames (weeks (ref s)) + 1"
    using w by (intro countGames_update) (auto simp add: isOpen_def isGame_def)
  then show ?thesis
    using assms(1) by (auto simp add: wfState_def afterGame_simps)
qed

text \<open>What a placement does to the array, participant by participant.\<close>

lemma placeGameAtWeek_nth:
  assumes "placeable st t opp w"
  obtains x where
    "placeGameAtWeek st t opp w ! t = afterGame (st ! t) (st ! opp) w x"
    "placeGameAtWeek st t opp w ! opp = afterGame (st ! opp) (st ! t) w (\<not> x)"
proof -
  have a: "t \<noteq> opp" "t < length st" "opp < length st"
    using assms by (simp_all add: placeable_def)
  show ?thesis
    using that [of "fst (pickHomeAway st t opp) \<noteq> t"]
      placeGameAtWeek_first [OF a] placeGameAtWeek_second [OF a] by simp
qed

lemma wfStates_place:
  assumes "wfStates st" "placeable st t opp w"
  shows "wfStates (placeGameAtWeek st t opp w)"
proof -
  obtain x where
    nt: "placeGameAtWeek st t opp w ! t = afterGame (st ! t) (st ! opp) w x" and
    no: "placeGameAtWeek st t opp w ! opp = afterGame (st ! opp) (st ! t) w (\<not> x)"
    using assms(2) by (rule placeGameAtWeek_nth)
  have p: "t < length st" "opp < length st" "w \<in> set (availableWeeks (st ! t))"
    "w \<in> set (availableWeeks (st ! opp))"
    using assms(2) by (simp_all add: placeable_def)
  show ?thesis
    unfolding wfStates_def
  proof (intro allI impI)
    fix i assume "i < length (placeGameAtWeek st t opp w)"
    then have i: "i < length st" by (simp add: length_placeGameAtWeek)
    consider "i = t" | "i = opp" | "i \<noteq> t" "i \<noteq> opp" by blast
    then show "wfState (placeGameAtWeek st t opp w ! i)"
    proof cases
      case 1
      then show ?thesis using assms(1) p nt by (simp add: wfStates_def wfState_afterGame)
    next
      case 2
      then show ?thesis using assms(1) p no by (simp add: wfStates_def wfState_afterGame)
    next
      case 3
      then show ?thesis using assms(1) i by (simp add: wfStates_def placeGameAtWeek_other)
    qed
  qed
qed

lemma sameTeam_afterGame:
  assumes "sameTeam s0 s"
  shows "sameTeam s0 (afterGame s other w x)"
  using assms by (auto simp add: sameTeam_def afterGame_simps)

lemma frame_place:
  assumes "frame st0 st" "placeable st t opp w"
  shows "frame st0 (placeGameAtWeek st t opp w)"
proof -
  obtain x where
    nt: "placeGameAtWeek st t opp w ! t = afterGame (st ! t) (st ! opp) w x" and
    no: "placeGameAtWeek st t opp w ! opp = afterGame (st ! opp) (st ! t) w (\<not> x)"
    using assms(2) by (rule placeGameAtWeek_nth)
  have "sameTeam (st0 ! i) (placeGameAtWeek st t opp w ! i)" if "i < length st0" for i
  proof -
    have s: "sameTeam (st0 ! i) (st ! i)" using assms(1) that by (simp add: frame_def)
    consider "i = t" | "i = opp" | "i \<noteq> t" "i \<noteq> opp" by blast
    then show ?thesis
    proof cases
      case 1
      then show ?thesis using s nt by (simp add: sameTeam_afterGame)
    next
      case 2
      then show ?thesis using s no by (simp add: sameTeam_afterGame)
    next
      case 3
      then show ?thesis using s by (simp add: placeGameAtWeek_other)
    qed
  qed
  then show ?thesis
    using assms(1) by (simp add: frame_def length_placeGameAtWeek)
qed

lemma bounded_place:
  assumes "bounded st0 st" "placeable st t opp w"
  shows "bounded st0 (placeGameAtWeek st t opp w)"
proof -
  obtain x where
    nt: "placeGameAtWeek st t opp w ! t = afterGame (st ! t) (st ! opp) w x" and
    no: "placeGameAtWeek st t opp w ! opp = afterGame (st ! opp) (st ! t) w (\<not> x)"
    using assms(2) by (rule placeGameAtWeek_nth)
  have lt: "totalGames (st ! t) < 12" "totalGames (st ! opp) < 12"
    using assms(2) by (auto simp add: placeable_def canScheduleBetween_def split: if_splits)
  have "totalGames (st0 ! i) \<le> totalGames (placeGameAtWeek st t opp w ! i)
        \<and> totalGames (placeGameAtWeek st t opp w ! i) \<le> max 12 (totalGames (st0 ! i))"
    if "i < length st0" for i
  proof -
    have s: "totalGames (st0 ! i) \<le> totalGames (st ! i)"
      "totalGames (st ! i) \<le> max 12 (totalGames (st0 ! i))"
      using assms(1) that by (simp_all add: bounded_def)
    consider "i = t" | "i = opp" | "i \<noteq> t" "i \<noteq> opp" by blast
    then show ?thesis
    proof cases
      case 1
      then show ?thesis using s nt lt by (simp add: afterGame_simps)
    next
      case 2
      then show ?thesis using s no lt by (simp add: afterGame_simps)
    next
      case 3
      then show ?thesis using s by (simp add: placeGameAtWeek_other)
    qed
  qed
  then show ?thesis
    using assms(1) by (simp add: bounded_def length_placeGameAtWeek)
qed

lemma account_place:
  assumes "wfStates st" "frame st0 st" "account st0 st" "placeable st t opp w"
  shows "account st0 (placeGameAtWeek st t opp w)"
proof -
  obtain x where
    nt: "placeGameAtWeek st t opp w ! t = afterGame (st ! t) (st ! opp) w x" and
    no: "placeGameAtWeek st t opp w ! opp = afterGame (st ! opp) (st ! t) w (\<not> x)"
    using assms(4) by (rule placeGameAtWeek_nth)
  have len: "length st = length st0" using assms(2) by (simp add: frame_def)
  have step: "totalGames (afterGame (st ! i) other w y) - totalGames (st0 ! i)
        = int (newSlotsIn (weeks (ref (st0 ! i))) (weeks (ref (afterGame (st ! i) other w y))))"
    if "i < length st0" "w \<in> set (availableWeeks (st ! i))" for i other y
  proof -
    have wf: "wfState (st ! i)" using assms(1) that len by (simp add: wfStates_def)
    have sm: "sameTeam (st0 ! i) (st ! i)" using assms(2) that by (simp add: frame_def)
    have w: "w < length (weeks (ref (st ! i)))" "isOpen (weeks (ref (st ! i)) ! w)"
      using wf that by (auto simp add: wfState_def)
    have eq: "weeks (ref (st ! i)) ! w = weeks (ref (st0 ! i)) ! w"
      using sm that by (simp add: sameTeam_def)
    have "OocGame (st_name other) y \<noteq> weeks (ref (st0 ! i)) ! w"
      using w eq by (auto simp add: isOpen_def)
    then have "newSlotsIn (weeks (ref (st0 ! i))) ((weeks (ref (st ! i)))[w := OocGame (st_name other) y])
          = newSlotsIn (weeks (ref (st0 ! i))) (weeks (ref (st ! i))) + 1"
      using w eq by (intro newSlotsIn_update) simp_all
    moreover have "totalGames (st ! i) - totalGames (st0 ! i)
          = int (newSlotsIn (weeks (ref (st0 ! i))) (weeks (ref (st ! i))))"
      using assms(3) that by (simp add: account_def)
    ultimately show ?thesis by (simp add: afterGame_simps)
  qed
  have p: "w \<in> set (availableWeeks (st ! t))" "w \<in> set (availableWeeks (st ! opp))"
    using assms(4) by (simp_all add: placeable_def)
  show ?thesis
    unfolding account_def
  proof (intro allI impI)
    fix i assume i: "i < length st0"
    consider "i = t" | "i = opp" | "i \<noteq> t" "i \<noteq> opp" by blast
    then show "totalGames (placeGameAtWeek st t opp w ! i) - totalGames (st0 ! i)
        = int (newSlotsIn (weeks (ref (st0 ! i))) (weeks (ref (placeGameAtWeek st t opp w ! i))))"
    proof cases
      case 1
      then show ?thesis using step [of t] i p nt by simp
    next
      case 2
      then show ?thesis using step [of opp] i p no by simp
    next
      case 3
      then show ?thesis using assms(3) i by (simp add: placeGameAtWeek_other account_def)
    qed
  qed
qed

lemma paired_place:
  assumes wf: "wfStates st" and fr: "frame st0 st" and pa: "paired st0 st"
    and pl: "placeable st t opp w"
  shows "paired st0 (placeGameAtWeek st t opp w)"
proof -
  let ?st = "placeGameAtWeek st t opp w"
  obtain x where
    nt: "?st ! t = afterGame (st ! t) (st ! opp) w x" and
    no: "?st ! opp = afterGame (st ! opp) (st ! t) w (\<not> x)"
    using pl by (rule placeGameAtWeek_nth)
  have len: "length st = length st0" using fr by (simp add: frame_def)
  have p: "t < length st0" "opp < length st0" "t \<noteq> opp"
    "w \<in> set (availableWeeks (st ! t))" "w \<in> set (availableWeeks (st ! opp))"
    using pl len by (simp_all add: placeable_def)
  have part: "w < length (weeks (ref (st0 ! k))) \<and> isOpen (weeks (ref (st0 ! k)) ! w)
        \<and> isOpen (weeks (ref (st ! k)) ! w) \<and> w < length (weeks (ref (st ! k)))
        \<and> st_name (st ! k) = st_name (st0 ! k)"
    if "k < length st0" "w \<in> set (availableWeeks (st ! k))" for k
  proof -
    have "wfState (st ! k)" using wf that len by (simp add: wfStates_def)
    moreover have "sameTeam (st0 ! k) (st ! k)" using fr that by (simp add: frame_def)
    ultimately show ?thesis using that by (auto simp add: wfState_def sameTeam_def)
  qed
  note pt = part [OF p(1) p(4)] and po = part [OF p(2) p(5)]
  have wt: "weeks (ref (?st ! t)) ! w = OocGame (st_name (st0 ! opp)) x"
    using nt pt po by (simp add: afterGame_simps)
  have wo: "weeks (ref (?st ! opp)) ! w = OocGame (st_name (st0 ! t)) (\<not> x)"
    using no pt po by (simp add: afterGame_simps)
  have keep: "weeks (ref (?st ! k)) ! v = weeks (ref (st ! k)) ! v"
    if h: "\<not> ((k = t \<or> k = opp) \<and> v = w)" for k v
  proof -
    consider "k = t" "v \<noteq> w" | "k = opp" "v \<noteq> w" | "k \<noteq> t" "k \<noteq> opp"
      using h by blast
    then show ?thesis
    proof cases
      case 1
      then show ?thesis using nt by (simp add: afterGame_simps)
    next
      case 2
      then show ?thesis using no by (simp add: afterGame_simps)
    next
      case 3
      then show ?thesis by (simp add: placeGameAtWeek_other)
    qed
  qed
  show ?thesis
    unfolding paired_def
  proof (intro allI impI)
    fix i v
    assume i: "i < length st0" and v: "v < length (weeks (ref (st0 ! i)))"
      and ch: "weeks (ref (?st ! i)) ! v \<noteq> weeks (ref (st0 ! i)) ! v"
    let ?goal = "isOpen (weeks (ref (st0 ! i)) ! v)
          \<and> (\<exists>j<length st0. j \<noteq> i \<and> v < length (weeks (ref (st0 ! j)))
                \<and> isOpen (weeks (ref (st0 ! j)) ! v)
                \<and> (\<exists>y. weeks (ref (?st ! i)) ! v = OocGame (st_name (st0 ! j)) y
                       \<and> weeks (ref (?st ! j)) ! v = OocGame (st_name (st0 ! i)) (\<not> y)))"
    consider "i = t" "v = w" | "i = opp" "v = w" | "\<not> ((i = t \<or> i = opp) \<and> v = w)"
      by blast
    then show ?goal
    proof cases
      case 1
      have "opp < length st0 \<and> opp \<noteq> i \<and> v < length (weeks (ref (st0 ! opp)))
            \<and> isOpen (weeks (ref (st0 ! opp)) ! v)
            \<and> weeks (ref (?st ! i)) ! v = OocGame (st_name (st0 ! opp)) x
            \<and> weeks (ref (?st ! opp)) ! v = OocGame (st_name (st0 ! i)) (\<not> x)"
        using 1 p po wt wo by simp
      then show ?thesis using 1 pt by blast
    next
      case 2
      have "t < length st0 \<and> t \<noteq> i \<and> v < length (weeks (ref (st0 ! t)))
            \<and> isOpen (weeks (ref (st0 ! t)) ! v)
            \<and> weeks (ref (?st ! i)) ! v = OocGame (st_name (st0 ! t)) (\<not> x)
            \<and> weeks (ref (?st ! t)) ! v = OocGame (st_name (st0 ! i)) (\<not> \<not> x)"
        using 2 p pt wt wo by simp
      then show ?thesis using 2 po by blast
    next
      case 3
      have same: "weeks (ref (?st ! i)) ! v = weeks (ref (st ! i)) ! v"
        using 3 by (rule keep)
      then have "weeks (ref (st ! i)) ! v \<noteq> weeks (ref (st0 ! i)) ! v" using ch by simp
      with pa i v obtain j y where
        op: "isOpen (weeks (ref (st0 ! i)) ! v)" and
        j: "j < length st0" "j \<noteq> i" "v < length (weeks (ref (st0 ! j)))"
          "isOpen (weeks (ref (st0 ! j)) ! v)" and
        wi: "weeks (ref (st ! i)) ! v = OocGame (st_name (st0 ! j)) y" and
        wj: "weeks (ref (st ! j)) ! v = OocGame (st_name (st0 ! i)) (\<not> y)"
        unfolding paired_def by blast
      have "\<not> ((j = t \<or> j = opp) \<and> v = w)"
      proof
        assume "(j = t \<or> j = opp) \<and> v = w"
        then have "isOpen (weeks (ref (st ! j)) ! v)" using pt po by auto
        then show False using wj by (simp add: isOpen_def)
      qed
      then have "weeks (ref (?st ! j)) ! v = weeks (ref (st ! j)) ! v" by (rule keep)
      then have "j < length st0 \<and> j \<noteq> i \<and> v < length (weeks (ref (st0 ! j)))
            \<and> isOpen (weeks (ref (st0 ! j)) ! v)
            \<and> weeks (ref (?st ! i)) ! v = OocGame (st_name (st0 ! j)) y
            \<and> weeks (ref (?st ! j)) ! v = OocGame (st_name (st0 ! i)) (\<not> y)"
        using j wi wj same by simp
      then show ?thesis using op by blast
    qed
  qed
qed

lemma passInv_place:
  "passInv st0 st \<Longrightarrow> placeable st t opp w \<Longrightarrow> passInv st0 (placeGameAtWeek st t opp w)"
  by (simp add: passInv_def wfStates_place frame_place paired_place account_place)

lemma passInv_start: "wfStates st0 \<Longrightarrow> passInv st0 st0"
  by (simp add: passInv_def frame_def sameTeam_def paired_def account_def newSlotsIn_same)

lemma passInv_weekLoop: "wfStates st0 \<Longrightarrow> passInv st0 (weekLoop lc ws st0)"
  by (rule weekLoop_invariant [where P = "passInv st0"]) (simp_all add: passInv_place passInv_start)

lemma passInv_finalState:
  "passInv (initialState ts) (finalState lc ts av)"
  by (simp add: finalState_def initialState_def passInv_weekLoop wfStates_computeTeamState)

lemma bounded_weekLoop: "bounded st (weekLoop lc ws st)"
proof (rule weekLoop_invariant [where P = "bounded st"])
  show "bounded st st" by (simp add: bounded_def)
qed (rule bounded_place)

subsection \<open>The sum of totalGames\<close>

lemma gamesSum_sum: "gamesSum st = (\<Sum>i<length st. totalGames (st ! i))"
proof -
  have "gamesSum st = (\<Sum>i = 0..<length st. map totalGames st ! i)"
    using sum_list_sum_nth [of "map totalGames st"] by (simp add: gamesSum_def)
  also have "\<dots> = (\<Sum>i<length st. totalGames (st ! i))"
    by (rule sum.cong) auto
  finally show ?thesis .
qed

lemma sum_two_more:
  fixes f g :: "nat \<Rightarrow> int"
  assumes "a \<noteq> b" "a < n" "b < n"
    and "\<And>k. k < n \<Longrightarrow> k \<noteq> a \<Longrightarrow> k \<noteq> b \<Longrightarrow> g k = f k"
    and "g a = f a + 1" "g b = f b + 1"
  shows "(\<Sum>i<n. g i) = (\<Sum>i<n. f i) + 2"
proof -
  let ?R = "{..<n} - {a} - {b}"
  have fin: "finite {..<n}" "finite ({..<n} - {a})" by simp_all
  have ina: "a \<in> {..<n}" and inb: "b \<in> {..<n} - {a}" using assms by auto
  have g: "sum g {..<n} = g a + (g b + sum g ?R)"
    using sum.remove [OF fin(1) ina, of g] sum.remove [OF fin(2) inb, of g] by simp
  have f: "sum f {..<n} = f a + (f b + sum f ?R)"
    using sum.remove [OF fin(1) ina, of f] sum.remove [OF fin(2) inb, of f] by simp
  have "sum g ?R = sum f ?R"
    by (rule sum.cong) (use assms(4) in auto)
  then show ?thesis using g f assms(5,6) by simp
qed

lemma gamesSum_place:
  assumes "a \<noteq> b" "a < length st" "b < length st"
  shows "gamesSum (placeGameAtWeek st a b w) = gamesSum st + 2"
proof -
  have "(\<Sum>i<length st. totalGames (placeGameAtWeek st a b w ! i))
        = (\<Sum>i<length st. totalGames (st ! i)) + 2"
    using assms
  proof (rule sum_two_more)
    fix k assume "k \<noteq> a" "k \<noteq> b"
    then show "totalGames (placeGameAtWeek st a b w ! k) = totalGames (st ! k)"
      by (simp add: placeGameAtWeek_other)
  next
    show "totalGames (placeGameAtWeek st a b w ! a) = totalGames (st ! a) + 1"
      using assms by (simp add: placeGameAtWeek_first afterGame_simps)
  next
    show "totalGames (placeGameAtWeek st a b w ! b) = totalGames (st ! b) + 1"
      using assms by (simp add: placeGameAtWeek_second afterGame_simps)
  qed
  then show ?thesis by (simp add: gamesSum_sum length_placeGameAtWeek)
qed

lemma pairLoop_games:
  assumes "set eligible \<subseteq> {..<length st}" "set todo \<subseteq> {..<length st}"
  shows "gamesSum (fst (pairLoop lc w eligible todo (st, used)))
         = gamesSum st + 2 * int (pairCount lc w eligible todo (st, used))"
  using assms
proof (induction todo arbitrary: st used)
  case Nil
  then show ?case by simp
next
  case (Cons t rest)
  show ?case
  proof (cases "key (st ! t) \<in> used")
    case True
    then show ?thesis using Cons by simp
  next
    case unused: False
    show ?thesis
    proof (cases "candidates lc w eligible st used t")
      case Nil
      then show ?thesis using unused Cons by simp
    next
      case cand: (Cons opp more)
      let ?st = "placeGameAtWeek st t opp w"
      let ?used = "insert (key (st ! opp)) (insert (key (st ! t)) used)"
      have t: "t < length st" using Cons.prems(2) by simp
      have opp: "opp < length st" "t \<noteq> opp"
        using candidates_head [OF cand] Cons.prems(1) by auto
      have len: "length ?st = length st" by (simp add: length_placeGameAtWeek)
      have "gamesSum (fst (pairLoop lc w eligible rest (?st, ?used)))
            = gamesSum ?st + 2 * int (pairCount lc w eligible rest (?st, ?used))"
        by (rule Cons.IH) (use Cons.prems len in auto)
      moreover have "gamesSum ?st = gamesSum st + 2"
        using opp(2) t opp(1) by (rule gamesSum_place)
      ultimately show ?thesis using unused cand by simp
    qed
  qed
qed

lemma scheduleWeek_games:
  "gamesSum (scheduleWeek lc w st)
   = gamesSum st + 2 * int (pairCount lc w (eligibleAt st w) (eligibleAt st w) (st, {}))"
  unfolding scheduleWeek_def
  by (rule pairLoop_games) (auto simp add: set_eligibleAt)

lemma weekLoop_games:
  "gamesSum (weekLoop lc ws st) = gamesSum st + 2 * int (weekCount lc ws st)"
  by (induction ws arbitrary: st) (simp_all add: scheduleWeek_games)

lemma placed_games:
  "gamesSum (finalState lc ts av) - gamesSum (initialState ts)
   = 2 * int (gamesPlaced lc ts av)"
  by (simp add: finalState_def gamesPlaced_def weekLoop_games)

subsection \<open>The initial state and the input\<close>

lemma length_initialState: "length (initialState ts) = length ts"
  by (simp add: initialState_def computeTeamState_def deepCloneTeams_def)

lemma ref_teamStateOf: "ref (teamStateOf t) = t" "st_name (teamStateOf t) = name t"
  by (simp_all add: teamStateOf_def split: prod.splits)

lemma initialState_nth:
  assumes "i < length ts"
  shows "weeks (ref (initialState ts ! i)) = weeks (ts ! i)"
    and "name (ref (initialState ts ! i)) = name (ts ! i)"
    and "st_name (initialState ts ! i) = name (ts ! i)"
    and "conference (ref (initialState ts ! i)) = conference (ts ! i)"
    and "oocNeeded (ref (initialState ts ! i)) = oocNeeded (ts ! i)"
  using assms
  by (simp_all add: initialState_def computeTeamState_def deepCloneTeams_def ref_teamStateOf)

lemma length_finalState: "length (finalState lc ts av) = length ts"
  using passInv_finalState [of ts lc av]
  by (simp add: passInv_def frame_def length_initialState)

lemma placed_slots:
  "gamesSum (finalState lc ts av) - gamesSum (initialState ts)
   = int (newOocSlots ts (map ref (finalState lc ts av)))"
proof -
  let ?ini = "initialState ts" and ?fin = "finalState lc ts av"
  have acc: "account ?ini ?fin" and len: "length ?fin = length ts"
    using passInv_finalState [of ts lc av] by (simp_all add: passInv_def length_finalState)
  have "gamesSum ?fin - gamesSum ?ini
        = (\<Sum>i<length ts. totalGames (?fin ! i) - totalGames (?ini ! i))"
    by (simp add: gamesSum_sum len length_initialState sum_subtractf)
  also have "\<dots> = (\<Sum>i<length ts. int (newSlotsIn (weeks (ts ! i)) (weeks (ref (?fin ! i)))))"
    by (rule sum.cong) (use acc in \<open>auto simp add: account_def length_initialState initialState_nth\<close>)
  also have "\<dots> = (\<Sum>i<length ts. int (newSlotsIn (weeks (ts ! i)) (weeks (map ref ?fin ! i))))"
    by (rule sum.cong) (simp_all add: len)
  also have "\<dots> = int (newOocSlots ts (map ref ?fin))"
    by (simp add: newOocSlots_def interv_sum_list_conv_sum_set_nat atLeast0LessThan)
  finally show ?thesis .
qed

text \<open>
  Every game of a pass writes two cells: the number of new \<open>oocGame\<close> cells in the final
  teams is twice the number of times line 387 ran.
\<close>

lemma slots_twice_games:
  "newOocSlots ts (map ref (finalState lc ts av)) = 2 * gamesPlaced lc ts av"
  using placed_slots [of lc ts av] placed_games [of lc ts av] by linarith

subsection \<open>The result of a pass\<close>

lemma finalState_teams:
  "ok (tryGenerateSchedule lc ts av) \<Longrightarrow>
   teams (tryGenerateSchedule lc ts av) = Some (map ref (finalState lc ts av))"
  by (simp add: tryGenerateSchedule_def Let_def split: if_splits)

lemma teams_Some:
  "teams (tryGenerateSchedule lc ts av) = Some out \<Longrightarrow> out = map ref (finalState lc ts av)"
  by (simp add: tryGenerateSchedule_def Let_def split: if_splits)

lemma pickHomeAway_commute:
  "key (st ! a) \<noteq> key (st ! b) \<Longrightarrow> pickHomeAway st b a = pickHomeAway st a b"
  by (auto simp add: pickHomeAway_def)

text \<open>
  Every pair that reaches placeGameAtWeek, and so pickHomeAway, has two different keys.
\<close>

lemma placeable_keys: "placeable st t opp w \<Longrightarrow> key (st ! t) \<noteq> key (st ! opp)"
  by (auto simp add: placeable_def canScheduleBetween_def split: if_splits)

lemma candidates_keys:
  assumes "candidates lc w eligible st used t = opp # rest"
  shows "key (st ! t) \<noteq> key (st ! opp)"
  using candidates_head [OF assms]
  by (auto simp add: canScheduleBetween_def split: if_splits)

text \<open>
  The count that validateParsedTeams compares with 12 (lines 72-74 and 82) is the number
  of game cells of a parsed team, since parseCSVToTeams produces no \<open>oocGame\<close> cell.
\<close>

lemma countGames_validated:
  assumes "\<forall>w\<in>set ws. \<not> isOocGame w"
  shows "countGames ws = int (scheduledCount ws)"
proof -
  have "filter isGame ws = filter (\<lambda>w. w = ConfHome \<or> w = ConfAway \<or> isLockedOOC w) ws"
  proof (rule filter_cong [OF refl])
    fix w assume "w \<in> set ws"
    then have "\<not> isOocGame w" using assms by simp
    then show "isGame w = (w = ConfHome \<or> w = ConfAway \<or> isLockedOOC w)"
      by (cases w) (simp_all add: isGame_def)
  qed
  then show ?thesis by (simp add: countGames_def scheduledCount_def)
qed

lemma candidates_guard:
  assumes "candidates lc w eligible st used t = opp # rest"
  shows "opp \<noteq> t \<and> totalGames (st ! t) < 12 \<and> totalGames (st ! opp) < 12
         \<and> \<not> leZero (oocRemaining (st ! t)) \<and> \<not> leZero (oocRemaining (st ! opp))"
  using candidates_head [OF assms]
  by (auto simp add: canScheduleBetween_def split: if_splits)

lemma initial_totalGames:
  assumes "i < length ts"
  shows "totalGames (initialState ts ! i) = countGames (weeks (ts ! i))"
proof -
  have "wfState (initialState ts ! i)"
    using wfStates_computeTeamState [of "deepCloneTeams ts"] assms
    by (simp add: wfStates_def initialState_def length_initialState [unfolded initialState_def])
  then show ?thesis using assms by (simp add: wfState_def initialState_nth)
qed

lemma final_totalGames:
  assumes "i < length ts"
  shows "totalGames (finalState lc ts av ! i) = countGames (weeks (ref (finalState lc ts av ! i)))"
  using passInv_finalState [of ts lc av] assms
  by (simp add: passInv_def wfStates_def wfState_def length_finalState)

subsection \<open>Exact inputs\<close>

text \<open>
  For an exact input every \<open>oocRemaining\<close> is a count throughout the pass, every rounding
  is the identity, and the two sums and their difference are the sums and the difference
  of whole numbers.
\<close>

lemma countOf_nonneg: "isCount x \<Longrightarrow> 0 \<le> countOf x"
  by (cases x) simp_all

lemma scanWeek_locked:
  "scanWeek i w (tg, hg, ag, lk, po, aw) = (tg', hg', ag', lk', po', aw') \<Longrightarrow> lk \<le> lk'"
  by (cases w) auto

lemma scanWeeks_locked:
  "scanWeeks i ws (tg, hg, ag, lk, po, aw) = (tg', hg', ag', lk', po', aw') \<Longrightarrow> lk \<le> lk'"
proof (induction ws arbitrary: i tg hg ag lk po aw)
  case Nil
  then show ?case by simp
next
  case (Cons w ws)
  obtain tg1 hg1 ag1 lk1 po1 aw1 where
    one: "scanWeek i w (tg, hg, ag, lk, po, aw) = (tg1, hg1, ag1, lk1, po1, aw1)"
    by (metis prod_cases6)
  have rest: "scanWeeks (Suc i) ws (tg1, hg1, ag1, lk1, po1, aw1) = (tg', hg', ag', lk', po', aw')"
    using Cons.prems one by simp
  from scanWeek_locked [OF one] Cons.IH [OF rest] show ?case by simp
qed

lemma remaining_teamStateOf:
  assumes "isCount (oocNeeded t)"
  shows "isCount (oocRemaining (teamStateOf t))
         \<and> countOf (oocRemaining (teamStateOf t)) \<le> countOf (oocNeeded t)"
proof -
  obtain k where k: "oocNeeded t = ofInt k" "0 \<le> k" "k \<le> 9007199254740992"
    using assms by (auto simp add: isCount_ofInt)
  obtain tg hg ag lk po aw where
    sc: "scanWeeks 0 (weeks t) (0, 0, 0, 0, {}, []) = (tg, hg, ag, lk, po, aw)"
    by (metis prod_cases6)
  have lk: "0 \<le> lk" using scanWeeks_locked [OF sc] .
  have r: "oocRemaining (teamStateOf t) = maxZero (numSub (ofInt k) (ofInt lk))"
    by (simp add: teamStateOf_def sc k(1) orZero_def ofInt_def)
  show ?thesis
  proof (cases "lk \<le> k")
    case True
    then have "\<bar>k - lk\<bar> \<le> 9007199254740992" using k lk by simp
    then have "numSub (ofInt k) (ofInt lk) = ofInt (k - lk)" by (rule numSub_whole)
    then have "oocRemaining (teamStateOf t) = ofInt (k - lk)"
      using r True by (simp add: ofInt_def)
    then show ?thesis using True k lk by (simp add: ofInt_def)
  next
    case False
    then have "(of_int k :: rat) + - of_int lk < 0" by simp
    then have "oocRemaining (teamStateOf t) = Finite 0"
      using r by (simp add: numSub_def ofInt_def maxZero_negative)
    then show ?thesis using k by (simp add: ofInt_def)
  qed
qed

lemma remaining_initialState:
  assumes "exactInput ts" "i < length ts"
  shows "isCount (oocRemaining (initialState ts ! i))"
    and "countOf (oocRemaining (initialState ts ! i)) \<le> countOf (oocNeeded (ts ! i))"
proof -
  let ?t = "deepCloneTeams ts ! i"
  have "isCount (oocNeeded (ts ! i))"
    using assms by (simp add: exactInput_def list_all_length)
  moreover have "oocNeeded ?t = oocNeeded (ts ! i)"
    using assms(2) by (simp add: deepCloneTeams_def)
  ultimately have "isCount (oocNeeded ?t)" by simp
  from remaining_teamStateOf [OF this] \<open>oocNeeded ?t = oocNeeded (ts ! i)\<close>
  show "isCount (oocRemaining (initialState ts ! i))"
    and "countOf (oocRemaining (initialState ts ! i)) \<le> countOf (oocNeeded (ts ! i))"
    using assms(2) by (simp_all add: initialState_def computeTeamState_def deepCloneTeams_def)
qed

lemma exact_start:
  assumes "exactInput ts"
  shows "exact (initialState ts) (initialState ts)"
  using remaining_initialState(1) [OF assms]
  by (simp add: exact_def length_initialState)

lemma exact_afterGame:
  assumes "isCount (oocRemaining s)" "\<not> leZero (oocRemaining s)"
  shows "isCount (oocRemaining (afterGame s other w x))
         \<and> countOf (oocRemaining (afterGame s other w x)) = countOf (oocRemaining s) - 1"
proof -
  obtain k where k: "oocRemaining s = ofInt k" "0 \<le> k" "k \<le> 9007199254740992"
    using assms(1) by (auto simp add: isCount_ofInt)
  have pos: "1 \<le> k" using assms(2) k(1) by (simp add: leZero_ofInt)
  then have "\<bar>k - 1\<bar> \<le> 9007199254740992" using k(3) by simp
  then have "numSub (ofInt k) (ofInt 1) = ofInt (k - 1)" by (rule numSub_whole)
  then have "oocRemaining (afterGame s other w x) = ofInt (k - 1)"
    by (simp add: afterGame_simps k(1)) (simp add: ofInt_def)
  then show ?thesis using pos k by (simp add: ofInt_def)
qed

lemma exact_place:
  assumes "exact st0 st" "placeable st t opp w"
  shows "exact st0 (placeGameAtWeek st t opp w)"
proof -
  obtain x where
    nt: "placeGameAtWeek st t opp w ! t = afterGame (st ! t) (st ! opp) w x" and
    no: "placeGameAtWeek st t opp w ! opp = afterGame (st ! opp) (st ! t) w (\<not> x)"
    using assms(2) by (rule placeGameAtWeek_nth)
  have len: "length st = length st0" using assms(1) by (simp add: exact_def)
  have pos: "\<not> leZero (oocRemaining (st ! t))" "\<not> leZero (oocRemaining (st ! opp))"
    using assms(2) by (auto simp add: placeable_def canScheduleBetween_def split: if_splits)
  have step: "isCount (oocRemaining (afterGame (st ! i) other w y))
        \<and> countOf (oocRemaining (st0 ! i)) - countOf (oocRemaining (afterGame (st ! i) other w y))
            = totalGames (afterGame (st ! i) other w y) - totalGames (st0 ! i)"
    if "i < length st0" "\<not> leZero (oocRemaining (st ! i))" for i other y
  proof -
    have c: "isCount (oocRemaining (st ! i))"
      and d: "countOf (oocRemaining (st0 ! i)) - countOf (oocRemaining (st ! i))
                = totalGames (st ! i) - totalGames (st0 ! i)"
      using assms(1) that(1) by (simp_all add: exact_def)
    from exact_afterGame [OF c that(2), of other w y] d show ?thesis
      by (simp add: afterGame_simps(3))
  qed
  have "isCount (oocRemaining (placeGameAtWeek st t opp w ! i))
        \<and> countOf (oocRemaining (st0 ! i)) - countOf (oocRemaining (placeGameAtWeek st t opp w ! i))
            = totalGames (placeGameAtWeek st t opp w ! i) - totalGames (st0 ! i)"
    if i: "i < length st0" for i
  proof -
    consider "i = t" | "i = opp" | "i \<noteq> t" "i \<noteq> opp" by blast
    then show ?thesis
    proof cases
      case 1
      then show ?thesis using step [of t] i pos nt by simp
    next
      case 2
      then show ?thesis using step [of opp] i pos no by simp
    next
      case 3
      then show ?thesis using assms(1) i by (simp add: placeGameAtWeek_other exact_def)
    qed
  qed
  then show ?thesis using len by (simp add: exact_def length_placeGameAtWeek)
qed

lemma exact_finalState:
  assumes "exactInput ts"
  shows "exact (initialState ts) (finalState lc ts av)"
  unfolding finalState_def
  by (rule weekLoop_invariant [where P = "exact (initialState ts)"])
    (simp_all add: exact_place exact_start [OF assms])

text \<open>The sum of counts whose total is at most \<open>2 ^ 53\<close> is computed without rounding.\<close>

lemma foldl_numAdd_counts:
  assumes "list_all isCount xs" "0 \<le> a" "a + sum_list (map countOf xs) \<le> 9007199254740992"
  shows "foldl numAdd (ofInt a) xs = ofInt (a + sum_list (map countOf xs))"
  using assms
proof (induction xs arbitrary: a)
  case Nil
  then show ?case by simp
next
  case (Cons x xs)
  obtain k where k: "x = ofInt k" "0 \<le> k" using Cons.prems(1) by (auto simp add: isCount_ofInt)
  have rest: "0 \<le> sum_list (map countOf xs)"
    using Cons.prems(1) by (intro sum_list_nonneg) (auto simp add: list_all_iff countOf_nonneg)
  have "\<bar>a + k\<bar> \<le> 9007199254740992"
    using Cons.prems(2,3) k rest by (simp add: countOf_ofInt)
  then have "numAdd (ofInt a) x = ofInt (a + k)" unfolding k(1) by (rule numAdd_whole)
  moreover have "foldl numAdd (ofInt (a + k)) xs = ofInt (a + k + sum_list (map countOf xs))"
    by (rule Cons.IH) (use Cons.prems k in \<open>simp_all add: countOf_ofInt\<close>)
  ultimately show ?case using k by (simp add: countOf_ofInt add.assoc)
qed

lemma remainingSum_counts:
  assumes "\<forall>i<length st. isCount (oocRemaining (st ! i))"
    and "(\<Sum>i<length st. countOf (oocRemaining (st ! i))) \<le> 9007199254740992"
  shows "remainingSum st = ofInt (\<Sum>i<length st. countOf (oocRemaining (st ! i)))"
proof -
  have s: "sum_list (map countOf (map oocRemaining st)) = (\<Sum>i<length st. countOf (oocRemaining (st ! i)))"
  proof -
    have "sum_list (map countOf (map oocRemaining st))
          = (\<Sum>i = 0..<length st. map countOf (map oocRemaining st) ! i)"
      using sum_list_sum_nth [of "map countOf (map oocRemaining st)"] by simp
    also have "\<dots> = (\<Sum>i<length st. countOf (oocRemaining (st ! i)))"
      by (rule sum.cong) auto
    finally show ?thesis .
  qed
  have "remainingSum st = foldl numAdd (ofInt 0) (map oocRemaining st)"
    by (simp add: remainingSum_def foldl_map ofInt_def)
  also have "\<dots> = ofInt (0 + sum_list (map countOf (map oocRemaining st)))"
    by (rule foldl_numAdd_counts) (use assms s in \<open>simp_all add: list_all_length\<close>)
  finally show ?thesis using s by simp
qed

text \<open>
  The demand of an exact input before the pass is a count \<open>b\<close>, what is left of it after
  \<open>g\<close> games is \<open>b - 2 * g\<close>, and their difference is \<open>2 * g\<close>.
\<close>

lemma exact_sums:
  assumes "exactInput ts"
  obtains b where
    "0 \<le> b" "b \<le> 9007199254740992" "2 * int (gamesPlaced lc ts av) \<le> b"
    "remainingSum (initialState ts) = ofInt b"
    "remainingSum (finalState lc ts av) = ofInt (b - 2 * int (gamesPlaced lc ts av))"
proof -
  let ?ini = "initialState ts" and ?fin = "finalState lc ts av"
  let ?b = "\<Sum>i<length ts. countOf (oocRemaining (?ini ! i))"
  let ?a = "\<Sum>i<length ts. countOf (oocRemaining (?fin ! i))"
  have ex: "exact ?ini ?fin" using assms by (rule exact_finalState)
  have len: "length ?fin = length ts" "length ?ini = length ts"
    by (simp_all add: length_finalState length_initialState)
  have ci: "isCount (oocRemaining (?ini ! i))" if "i < length ts" for i
    using remaining_initialState(1) [OF assms that] .
  have cf: "isCount (oocRemaining (?fin ! i))" if "i < length ts" for i
    using ex that by (simp add: exact_def len)
  have "?b \<le> (\<Sum>i<length ts. countOf (oocNeeded (ts ! i)))"
    by (rule sum_mono) (use remaining_initialState(2) [OF assms] in simp)
  also have "\<dots> = sum_list (map (\<lambda>t. countOf (oocNeeded t)) ts)"
  proof -
    have "sum_list (map (\<lambda>t. countOf (oocNeeded t)) ts)
          = (\<Sum>i = 0..<length ts. map (\<lambda>t. countOf (oocNeeded t)) ts ! i)"
      using sum_list_sum_nth [of "map (\<lambda>t. countOf (oocNeeded t)) ts"] by simp
    also have "\<dots> = (\<Sum>i<length ts. countOf (oocNeeded (ts ! i)))"
      by (rule sum.cong) auto
    finally show ?thesis by simp
  qed
  also have "\<dots> \<le> 9007199254740992" using assms by (simp add: exactInput_def)
  finally have b53: "?b \<le> 9007199254740992" .
  have "?b - ?a = (\<Sum>i<length ts. countOf (oocRemaining (?ini ! i)) - countOf (oocRemaining (?fin ! i)))"
    by (simp add: sum_subtractf)
  also have "\<dots> = (\<Sum>i<length ts. totalGames (?fin ! i) - totalGames (?ini ! i))"
    by (rule sum.cong) (use ex in \<open>simp_all add: exact_def len\<close>)
  also have "\<dots> = gamesSum ?fin - gamesSum ?ini"
    by (simp add: gamesSum_sum len sum_subtractf)
  also have "\<dots> = 2 * int (gamesPlaced lc ts av)" by (rule placed_games)
  finally have diff: "?b - ?a = 2 * int (gamesPlaced lc ts av)" .
  have a0: "0 \<le> ?a"
    by (rule sum_nonneg) (use cf in \<open>simp add: countOf_nonneg\<close>)
  have b0: "0 \<le> ?b"
    by (rule sum_nonneg) (use ci in \<open>simp add: countOf_nonneg\<close>)
  have "remainingSum ?ini = ofInt ?b"
    using remainingSum_counts [of ?ini] ci b53 by (simp add: len)
  moreover have "remainingSum ?fin = ofInt ?a"
    using remainingSum_counts [of ?fin] cf a0 b53 diff by (simp add: len)
  moreover have "?a = ?b - 2 * int (gamesPlaced lc ts av)" using diff by simp
  ultimately show ?thesis using that [of ?b] b0 b53 a0 by simp
qed

lemma exact_scheduled:
  assumes "exactInput ts"
  shows "numSub (remainingSum (initialState ts)) (remainingSum (finalState lc ts av))
         = ofInt (2 * int (gamesPlaced lc ts av))"
proof -
  from assms obtain b where b: "0 \<le> b" "b \<le> 9007199254740992"
    "2 * int (gamesPlaced lc ts av) \<le> b"
    "remainingSum (initialState ts) = ofInt b"
    "remainingSum (finalState lc ts av) = ofInt (b - 2 * int (gamesPlaced lc ts av))"
    by (rule exact_sums)
  have "\<bar>b - (b - 2 * int (gamesPlaced lc ts av))\<bar> \<le> 9007199254740992"
    using b(1-3) by simp
  from numSub_whole [OF this] show ?thesis by (simp add: b(4,5))
qed

subsection \<open>Positive remainders\<close>

lemma roundDouble_not_NaN: "roundDouble x \<noteq> NaN"
  by (simp add: roundDouble_def)

lemma numSub_Finite_not_NaN: "x \<noteq> NaN \<Longrightarrow> numSub x (Finite b) \<noteq> NaN"
  by (cases x) (simp_all add: numSub_def roundDouble_not_NaN)

lemma maxZero_not_NaN: "x \<noteq> NaN \<Longrightarrow> maxZero x \<noteq> NaN"
  by (cases x) simp_all

lemma noNaN_teamStateOf: "oocRemaining (teamStateOf t) \<noteq> NaN"
proof -
  obtain tg hg ag lk po aw where
    sc: "scanWeeks 0 (weeks t) (0, 0, 0, 0, {}, []) = (tg, hg, ag, lk, po, aw)"
    by (metis prod_cases6)
  have "orZero (oocNeeded t) \<noteq> NaN" by (simp add: orZero_def)
  then have "maxZero (numSub (orZero (oocNeeded t)) (Finite (of_int lk))) \<noteq> NaN"
    by (intro maxZero_not_NaN numSub_Finite_not_NaN)
  then show ?thesis by (simp add: teamStateOf_def sc ofInt_def)
qed

lemma noNaN_initialState: "noNaN (initialState ts)"
  by (simp add: noNaN_def initialState_def computeTeamState_def noNaN_teamStateOf)

lemma noNaN_place:
  assumes "noNaN st" "placeable st t opp w"
  shows "noNaN (placeGameAtWeek st t opp w)"
proof -
  obtain x where
    nt: "placeGameAtWeek st t opp w ! t = afterGame (st ! t) (st ! opp) w x" and
    no: "placeGameAtWeek st t opp w ! opp = afterGame (st ! opp) (st ! t) w (\<not> x)"
    using assms(2) by (rule placeGameAtWeek_nth)
  have "oocRemaining (placeGameAtWeek st t opp w ! i) \<noteq> NaN" if i: "i < length st" for i
  proof -
    have r: "oocRemaining (st ! i) \<noteq> NaN" using assms(1) i by (simp add: noNaN_def)
    consider "i = t" | "i = opp" | "i \<noteq> t" "i \<noteq> opp" by blast
    then show ?thesis
    proof cases
      case 1
      then show ?thesis using r nt by (simp add: afterGame_simps numSub_Finite_not_NaN)
    next
      case 2
      then show ?thesis using r no by (simp add: afterGame_simps numSub_Finite_not_NaN)
    next
      case 3
      then show ?thesis using r by (simp add: placeGameAtWeek_other)
    qed
  qed
  then show ?thesis by (simp add: noNaN_def length_placeGameAtWeek)
qed

lemma not_leZero: "x \<noteq> NaN \<Longrightarrow> \<not> leZero x \<Longrightarrow> gtZero x"
  by (cases x) simp_all

lemma placeable_positive:
  assumes "placeable st t opp w" "noNaN st"
  shows "gtZero (oocRemaining (st ! t))" "gtZero (oocRemaining (st ! opp))"
proof -
  have "\<not> leZero (oocRemaining (st ! t))" "\<not> leZero (oocRemaining (st ! opp))"
    using assms(1) by (auto simp add: placeable_def canScheduleBetween_def split: if_splits)
  moreover have "oocRemaining (st ! t) \<noteq> NaN" "oocRemaining (st ! opp) \<noteq> NaN"
    using assms by (simp_all add: placeable_def noNaN_def)
  ultimately show "gtZero (oocRemaining (st ! t))" "gtZero (oocRemaining (st ! opp))"
    by (simp_all add: not_leZero)
qed

lemma placeable_count:
  assumes "placeable st t opp w"
  shows "isCount (oocRemaining (st ! t)) \<Longrightarrow>
           isCount (oocRemaining (placeGameAtWeek st t opp w ! t))
           \<and> countOf (oocRemaining (placeGameAtWeek st t opp w ! t))
               = countOf (oocRemaining (st ! t)) - 1"
    and "isCount (oocRemaining (st ! opp)) \<Longrightarrow>
           isCount (oocRemaining (placeGameAtWeek st t opp w ! opp))
           \<and> countOf (oocRemaining (placeGameAtWeek st t opp w ! opp))
               = countOf (oocRemaining (st ! opp)) - 1"
proof -
  obtain x where
    nt: "placeGameAtWeek st t opp w ! t = afterGame (st ! t) (st ! opp) w x" and
    no: "placeGameAtWeek st t opp w ! opp = afterGame (st ! opp) (st ! t) w (\<not> x)"
    using assms by (rule placeGameAtWeek_nth)
  have pos: "\<not> leZero (oocRemaining (st ! t))" "\<not> leZero (oocRemaining (st ! opp))"
    using assms by (auto simp add: placeable_def canScheduleBetween_def split: if_splits)
  show "isCount (oocRemaining (st ! t)) \<Longrightarrow>
           isCount (oocRemaining (placeGameAtWeek st t opp w ! t))
           \<and> countOf (oocRemaining (placeGameAtWeek st t opp w ! t))
               = countOf (oocRemaining (st ! t)) - 1"
    using exact_afterGame [OF _ pos(1)] nt by simp
  show "isCount (oocRemaining (st ! opp)) \<Longrightarrow>
           isCount (oocRemaining (placeGameAtWeek st t opp w ! opp))
           \<and> countOf (oocRemaining (placeGameAtWeek st t opp w ! opp))
               = countOf (oocRemaining (st ! opp)) - 1"
    using exact_afterGame [OF _ pos(2)] no by simp
qed

subsection \<open>The bye pass\<close>

lemma scanByes_sets:
  assumes "scanByes i ws (bs, en, e0) = (bs', en', e0')"
    and "distinct en" "distinct e0" "\<forall>x\<in>set en. x < i" "\<forall>x\<in>set e0. x < i"
  shows "length bs' = length bs + byeCount ws
    \<and> distinct en' \<and> set en' = set en \<union> {i + k |k. k < length ws \<and> i + k \<noteq> 0 \<and> ws ! k = Empty}
    \<and> distinct e0' \<and> set e0' = set e0 \<union> {i + k |k. k < length ws \<and> i + k = 0 \<and> ws ! k = Empty}"
  using assms
proof (induction ws arbitrary: i bs en e0)
  case Nil
  then show ?case by (simp add: byeCount_def)
next
  case (Cons w ws)
  let ?acc = "(if w = Bye then (bs @ [i], en, e0)
        else if w = Empty then (if i = 0 then (bs, en, e0 @ [i]) else (bs, en @ [i], e0))
        else (bs, en, e0))"
  obtain bs1 en1 e01 where acc: "?acc = (bs1, en1, e01)"
    by (metis prod_cases3)
  have rest: "scanByes (Suc i) ws (bs1, en1, e01) = (bs', en', e0')"
    using Cons.prems(1) acc by simp
  have d: "distinct en1" "distinct e01" "\<forall>x\<in>set en1. x < Suc i" "\<forall>x\<in>set e01. x < Suc i"
    using acc Cons.prems(2-5) by (auto split: if_splits simp add: less_Suc_eq)
  note ih = Cons.IH [OF rest d]
  have l1: "length bs1 = length bs + (if w = Bye then 1 else 0)"
    using acc by (auto split: if_splits)
  have s1: "set en1 = set en \<union> (if w = Empty \<and> i \<noteq> 0 then {i} else {})"
    using acc by (auto split: if_splits)
  have s2: "set e01 = set e0 \<union> (if w = Empty \<and> i = 0 then {i} else {})"
    using acc by (auto split: if_splits)
  have shift: "{i + k |k. k < length (w # ws) \<and> P (i + k) \<and> (w # ws) ! k = Empty}
      = (if w = Empty \<and> P i then {i} else {})
        \<union> {Suc i + k |k. k < length ws \<and> P (Suc i + k) \<and> ws ! k = Empty}" for P
  proof (intro set_eqI iffI)
    fix x assume "x \<in> {i + k |k. k < length (w # ws) \<and> P (i + k) \<and> (w # ws) ! k = Empty}"
    then obtain k where k: "x = i + k" "k < length (w # ws)" "P (i + k)" "(w # ws) ! k = Empty"
      by blast
    show "x \<in> (if w = Empty \<and> P i then {i} else {})
        \<union> {Suc i + k |k. k < length ws \<and> P (Suc i + k) \<and> ws ! k = Empty}"
    proof (cases k)
      case 0
      then show ?thesis using k by simp
    next
      case (Suc m)
      then have "x = Suc i + m \<and> m < length ws \<and> P (Suc i + m) \<and> ws ! m = Empty"
        using k by simp
      then show ?thesis by blast
    qed
  next
    fix x assume "x \<in> (if w = Empty \<and> P i then {i} else {})
        \<union> {Suc i + k |k. k < length ws \<and> P (Suc i + k) \<and> ws ! k = Empty}"
    then consider "w = Empty" "P i" "x = i"
      | m where "x = Suc i + m" "m < length ws" "P (Suc i + m)" "ws ! m = Empty"
      by (auto split: if_splits)
    then show "x \<in> {i + k |k. k < length (w # ws) \<and> P (i + k) \<and> (w # ws) ! k = Empty}"
    proof cases
      case 1
      then have "x = i + 0 \<and> 0 < length (w # ws) \<and> P (i + 0) \<and> (w # ws) ! 0 = Empty"
        by simp
      then show ?thesis by blast
    next
      case 2
      then have "x = i + Suc m \<and> Suc m < length (w # ws) \<and> P (i + Suc m)
          \<and> (w # ws) ! Suc m = Empty"
        by simp
      then show ?thesis by blast
    qed
  qed
  have "length bs' = length bs + byeCount (w # ws)"
    using ih l1 by (simp add: byeCount_def)
  moreover have "set en' = set en \<union> {i + k |k. k < length (w # ws) \<and> i + k \<noteq> 0 \<and> (w # ws) ! k = Empty}"
    using ih s1 shift [of "\<lambda>n. n \<noteq> 0"] by auto
  moreover have "set e0' = set e0 \<union> {i + k |k. k < length (w # ws) \<and> i + k = 0 \<and> (w # ws) ! k = Empty}"
    using ih s2 shift [of "\<lambda>n. n = 0"] by auto
  ultimately show ?case using ih by blast
qed

lemma coherent_viewOf: "coherent (viewOf t)"
proof -
  obtain bs en e0 where sc: "scanByes 0 (weeks t) ([], [], []) = (bs, en, e0)"
    by (metis prod_cases3)
  from scanByes_sets [OF sc] show ?thesis
    by (simp add: coherent_def viewOf_def sc)
qed

lemma v_t_viewOf: "v_t (viewOf t) = t"
  by (simp add: viewOf_def split: prod.splits)

lemma byeStep_cases:
  "(byeStep av r v = v
      \<and> (r \<le> length (byes v) \<or> 3 \<le> length (byes v) \<or> (emptiesNon0 v = [] \<and> empties0 v = [])))
   \<or> (\<exists>idx rest. length (byes v) < r \<and> length (byes v) < 3 \<and> emptiesNon0 v = idx # rest
         \<and> byeStep av r v = markBye (v\<lparr>emptiesNon0 := rest\<rparr>) idx)
   \<or> (\<exists>idx rest. length (byes v) < r \<and> length (byes v) < 3 \<and> emptiesNon0 v = []
         \<and> empties0 v = idx # rest
         \<and> byeStep av r v = markBye (v\<lparr>empties0 := rest\<rparr>) idx)"
proof (cases "r \<le> length (byes v) \<or> 3 \<le> length (byes v)")
  case True
  then show ?thesis by (auto simp add: byeStep_def maxByesPerTeam_def)
next
  case False
  show ?thesis
  proof (cases "emptiesNon0 v")
    case (Cons idx rest)
    then have "byeStep av r v = markBye (v\<lparr>emptiesNon0 := rest\<rparr>) idx"
      using False by (simp add: byeStep_def maxByesPerTeam_def shiftNon0_def markBye_def)
    then show ?thesis using False Cons by auto
  next
    case non: Nil
    show ?thesis
    proof (cases "empties0 v")
      case Nil
      then show ?thesis
        using False non by (simp add: byeStep_def maxByesPerTeam_def)
    next
      case (Cons idx rest)
      then have "byeStep av r v = markBye (v\<lparr>empties0 := rest\<rparr>) idx"
        using False non by (simp add: byeStep_def maxByesPerTeam_def shift0_def markBye_def)
      then show ?thesis using False non Cons by auto
    qed
  qed
qed

lemma byeCount_update:
  "w < length ws \<Longrightarrow> ws ! w \<noteq> Bye \<Longrightarrow> byeCount (ws[w := Bye]) = byeCount ws + 1"
proof (induction ws arbitrary: w)
  case Nil
  then show ?case by simp
next
  case (Cons x xs)
  then show ?case by (cases w) (simp_all add: byeCount_def)
qed

lemma markBye_non0:
  assumes co: "coherent v" and e: "emptiesNon0 v = idx # rest" and lt: "length (byes v) < 3"
  shows "stepOk v (markBye (v\<lparr>emptiesNon0 := rest\<rparr>) idx)"
proof -
  let ?ws = "weeks (v_t v)"
  have "idx \<in> set (emptiesNon0 v)" using e by simp
  then have idx: "idx < length ?ws" "idx \<noteq> 0" "?ws ! idx = Empty"
    using co by (auto simp add: coherent_def)
  have d: "idx \<notin> set rest" "distinct rest" using co e by (auto simp add: coherent_def)
  have bc: "byeCount (?ws[idx := Bye]) = byeCount ?ws + 1"
    using idx by (intro byeCount_update) simp_all
  have len: "length (byes v) = byeCount ?ws" using co by (simp add: coherent_def)
  have "set rest = set (emptiesNon0 v) - {idx}" using e d by auto
  then have s1: "set rest = {i. i < length ?ws \<and> i \<noteq> 0 \<and> ?ws[idx := Bye] ! i = Empty}"
    using co idx by (auto simp add: coherent_def nth_list_update)
  have s2: "set (empties0 v) = {i. i < length ?ws \<and> i = 0 \<and> ?ws[idx := Bye] ! i = Empty}"
    using co idx by (auto simp add: coherent_def nth_list_update)
  have d0: "distinct (empties0 v)" using co by (simp add: coherent_def)
  have co': "coherent (markBye (v\<lparr>emptiesNon0 := rest\<rparr>) idx)"
    using s1 s2 d d0 bc len by (simp add: coherent_def markBye_def)
  show ?thesis
    using co' idx bc len lt by (auto simp add: stepOk_def markBye_def nth_list_update)
qed

lemma markBye_0:
  assumes co: "coherent v" and n: "emptiesNon0 v = []" and e: "empties0 v = idx # rest"
    and lt: "length (byes v) < 3"
  shows "stepOk v (markBye (v\<lparr>empties0 := rest\<rparr>) idx)"
proof -
  let ?ws = "weeks (v_t v)"
  have "idx \<in> set (empties0 v)" using e by simp
  then have idx: "idx < length ?ws" "idx = 0" "?ws ! idx = Empty"
    using co by (auto simp add: coherent_def)
  have "set rest \<subseteq> {0}" "idx \<notin> set rest" using co e idx by (auto simp add: coherent_def)
  then have r: "rest = []" using idx by (cases rest) auto
  have bc: "byeCount (?ws[idx := Bye]) = byeCount ?ws + 1"
    using idx by (intro byeCount_update) simp_all
  have len: "length (byes v) = byeCount ?ws" using co by (simp add: coherent_def)
  have s1: "set (emptiesNon0 v) = {i. i < length ?ws \<and> i \<noteq> 0 \<and> ?ws[idx := Bye] ! i = Empty}"
    using co idx by (auto simp add: coherent_def nth_list_update)
  have s2: "{i. i < length ?ws \<and> i = 0 \<and> ?ws[idx := Bye] ! i = Empty} = {}"
    using idx by auto
  have co': "coherent (markBye (v\<lparr>empties0 := rest\<rparr>) idx)"
    using s1 s2 r n bc len by (simp add: coherent_def markBye_def)
  show ?thesis
    using co' idx bc len lt by (auto simp add: stepOk_def markBye_def nth_list_update)
qed

lemma stepOk_refl: "coherent v \<Longrightarrow> stepOk v v"
  by (simp add: stepOk_def)

lemma byeStep_ok: "coherent v \<Longrightarrow> stepOk v (byeStep av r v)"
  using byeStep_cases [of av r v]
  by (auto simp add: stepOk_refl markBye_non0 markBye_0)

lemma byeStep_served:
  assumes "r = 0 \<or> served (r - 1) v" "r \<le> 3"
  shows "served r (byeStep av r v)"
  using byeStep_cases [of av r v] assms
  by (auto simp add: served_def markBye_def)

lemma byeStep_id:
  assumes "served 3 v"
  shows "byeStep av r v = v"
  using byeStep_cases [of av r v] assms
  by (auto simp add: served_def)

lemma stepOk_trans:
  assumes "stepOk a b" "stepOk b c"
  shows "stepOk a c"
proof -
  have "weeks (v_t c) ! w = weeks (v_t a) ! w
        \<or> (weeks (v_t a) ! w = Empty \<and> weeks (v_t c) ! w = Bye)"
    if "w < length (weeks (v_t a))" for w
  proof -
    have 1: "weeks (v_t b) ! w = weeks (v_t a) ! w
        \<or> (weeks (v_t a) ! w = Empty \<and> weeks (v_t b) ! w = Bye)"
      using assms(1) that by (simp add: stepOk_def)
    have 2: "weeks (v_t c) ! w = weeks (v_t b) ! w
        \<or> (weeks (v_t b) ! w = Empty \<and> weeks (v_t c) ! w = Bye)"
      using assms that by (simp add: stepOk_def)
    from 1 2 show ?thesis by auto
  qed
  then show ?thesis
    using assms by (auto simp add: stepOk_def)
qed

lemma assignByes_map: "assignByes list av = map (byesFor av) list"
proof -
  have "[1..<Suc maxByesPerTeam] = [1, 2, 3]"
    by (simp add: maxByesPerTeam_def upt_rec)
  then show ?thesis
    by (simp add: assignByes_def byeRound_def byesFor_def)
qed

lemma byesFor_steps:
  "stepOk (viewOf t) (byeStep av 3 (byeStep av 2 (byeStep av 1 (viewOf t))))
   \<and> served 3 (byeStep av 3 (byeStep av 2 (byeStep av 1 (viewOf t))))"
proof -
  let ?v0 = "viewOf t"
  let ?v1 = "byeStep av 1 ?v0"
  let ?v2 = "byeStep av 2 ?v1"
  let ?v3 = "byeStep av 3 ?v2"
  have c0: "coherent ?v0" by (rule coherent_viewOf)
  have s1: "stepOk ?v0 ?v1" using c0 by (rule byeStep_ok)
  then have c1: "coherent ?v1" by (simp add: stepOk_def)
  have s2: "stepOk ?v1 ?v2" using c1 by (rule byeStep_ok)
  then have c2: "coherent ?v2" by (simp add: stepOk_def)
  have s3: "stepOk ?v2 ?v3" using c2 by (rule byeStep_ok)
  have ok: "stepOk ?v0 ?v3"
    using s1 s2 s3 by (blast intro: stepOk_trans)
  have "served 0 ?v0" by (simp add: served_def)
  then have "served 1 ?v1" by (intro byeStep_served) simp_all
  then have "served 2 ?v2" by (intro byeStep_served) simp_all
  then have "served 3 ?v3" by (intro byeStep_served) simp_all
  then show ?thesis using ok by simp
qed

lemma byesFor_ok:
  "name (byesFor av t) = name t \<and> conference (byesFor av t) = conference t
   \<and> oocNeeded (byesFor av t) = oocNeeded t
   \<and> length (weeks (byesFor av t)) = length (weeks t)
   \<and> (\<forall>w<length (weeks t).
         weeks (byesFor av t) ! w = weeks t ! w
         \<or> (weeks t ! w = Empty \<and> weeks (byesFor av t) ! w = Bye))
   \<and> byeCount (weeks (byesFor av t)) \<le> max 3 (byeCount (weeks t))"
  using byesFor_steps [of t av]
  by (simp add: stepOk_def byesFor_def v_t_viewOf)

lemma byesFor_idem: "byesFor av (byesFor av t) = byesFor av t"
proof -
  let ?v3 = "byeStep av 3 (byeStep av 2 (byeStep av 1 (viewOf t)))"
  let ?u = "viewOf (v_t ?v3)"
  have c3: "coherent ?v3" and sv: "served 3 ?v3"
    using byesFor_steps [of t av] by (simp_all add: stepOk_def)
  have cu: "coherent ?u" by (rule coherent_viewOf)
  have "length (byes ?u) = length (byes ?v3)"
    using c3 cu by (simp add: coherent_def v_t_viewOf)
  moreover have "set (emptiesNon0 ?u) = set (emptiesNon0 ?v3)"
    "set (empties0 ?u) = set (empties0 ?v3)"
    using c3 cu by (simp_all add: coherent_def v_t_viewOf)
  ultimately have "served 3 ?u"
    using sv by (auto simp add: served_def simp flip: set_empty)
  then have "byeStep av 3 (byeStep av 2 (byeStep av 1 ?u)) = ?u"
    by (simp add: byeStep_id)
  then show ?thesis by (simp add: byesFor_def v_t_viewOf)
qed

lemma matcher_changes:
  assumes "i < length ts" "w < length (weeks (ts ! i))"
  shows "length (weeks (ref (finalState lc ts av ! i))) = length (weeks (ts ! i))
    \<and> (weeks (ref (finalState lc ts av ! i)) ! w = weeks (ts ! i) ! w
        \<or> (isOpen (weeks (ts ! i) ! w) \<and> isOocGame (weeks (ref (finalState lc ts av ! i)) ! w)))"
proof -
  let ?ini = "initialState ts" and ?fin = "finalState lc ts av"
  have inv: "frame ?ini ?fin" "paired ?ini ?fin"
    using passInv_finalState [of ts lc av] by (simp_all add: passInv_def)
  have il: "i < length ?ini" using assms(1) by (simp add: length_initialState)
  have wl: "w < length (weeks (ref (?ini ! i)))" using assms by (simp add: initialState_nth)
  have len: "length (weeks (ref (?fin ! i))) = length (weeks (ts ! i))"
    using inv(1) il assms(1) by (simp add: frame_def sameTeam_def initialState_nth)
  have "isOpen (weeks (ts ! i) ! w) \<and> isOocGame (weeks (ref (?fin ! i)) ! w)"
    if ch: "weeks (ref (?fin ! i)) ! w \<noteq> weeks (ts ! i) ! w"
  proof -
    have ch': "weeks (ref (?fin ! i)) ! w \<noteq> weeks (ref (?ini ! i)) ! w"
      using ch assms(1) by (simp add: initialState_nth)
    note half = inv(2) [unfolded paired_def, rule_format, OF il wl ch']
    then show ?thesis using assms(1) by (auto simp add: initialState_nth)
  qed
  then show ?thesis using len by blast
qed

section \<open>Home and away sides\<close>

text \<open>
  C6. For two state objects \<open>a\<close> and \<open>b\<close>, pickHomeAway makes home the one with strictly
  fewer \<open>homeGames\<close>; on a tie the one with strictly more \<open>awayGames\<close>; on a further tie
  the one with the smaller key. Two objects with different keys get the same sides in
  either argument order. The keys differ on every call: pickHomeAway is called only
  from placeGameAtWeek (line 324), which line 387 runs only for a candidate that
  canScheduleBetween accepted, and canScheduleBetween rejects equal keys (line 301).
\<close>

theorem pickHomeAway_sides:
  "(homeGames (st ! a) < homeGames (st ! b) \<longrightarrow> pickHomeAway st a b = (a, b))
   \<and> (homeGames (st ! b) < homeGames (st ! a) \<longrightarrow> pickHomeAway st a b = (b, a))
   \<and> (homeGames (st ! a) = homeGames (st ! b) \<and> awayGames (st ! b) < awayGames (st ! a)
        \<longrightarrow> pickHomeAway st a b = (a, b))
   \<and> (homeGames (st ! a) = homeGames (st ! b) \<and> awayGames (st ! a) < awayGames (st ! b)
        \<longrightarrow> pickHomeAway st a b = (b, a))
   \<and> (homeGames (st ! a) = homeGames (st ! b) \<and> awayGames (st ! a) = awayGames (st ! b)
        \<and> key (st ! a) < key (st ! b) \<longrightarrow> pickHomeAway st a b = (a, b))
   \<and> (homeGames (st ! a) = homeGames (st ! b) \<and> awayGames (st ! a) = awayGames (st ! b)
        \<and> key (st ! b) < key (st ! a) \<longrightarrow> pickHomeAway st a b = (b, a))
   \<and> (key (st ! a) \<noteq> key (st ! b) \<longrightarrow> pickHomeAway st b a = pickHomeAway st a b)
   \<and> (candidates lc w eligible st used a = b # rest \<longrightarrow>
        key (st ! a) \<noteq> key (st ! b) \<and> pickHomeAway st b a = pickHomeAway st a b)
   \<and> (placeable st a b w \<longrightarrow>
        key (st ! a) \<noteq> key (st ! b) \<and> pickHomeAway st b a = pickHomeAway st a b)"
proof -
  have rules: "(homeGames (st ! a) < homeGames (st ! b) \<longrightarrow> pickHomeAway st a b = (a, b))
   \<and> (homeGames (st ! b) < homeGames (st ! a) \<longrightarrow> pickHomeAway st a b = (b, a))
   \<and> (homeGames (st ! a) = homeGames (st ! b) \<and> awayGames (st ! b) < awayGames (st ! a)
        \<longrightarrow> pickHomeAway st a b = (a, b))
   \<and> (homeGames (st ! a) = homeGames (st ! b) \<and> awayGames (st ! a) < awayGames (st ! b)
        \<longrightarrow> pickHomeAway st a b = (b, a))
   \<and> (homeGames (st ! a) = homeGames (st ! b) \<and> awayGames (st ! a) = awayGames (st ! b)
        \<and> key (st ! a) < key (st ! b) \<longrightarrow> pickHomeAway st a b = (a, b))
   \<and> (homeGames (st ! a) = homeGames (st ! b) \<and> awayGames (st ! a) = awayGames (st ! b)
        \<and> key (st ! b) < key (st ! a) \<longrightarrow> pickHomeAway st a b = (b, a))"
    by (auto simp add: pickHomeAway_def)
  have sym: "key (st ! a) \<noteq> key (st ! b) \<longrightarrow> pickHomeAway st b a = pickHomeAway st a b"
    by (rule impI) (rule pickHomeAway_commute)
  have cand: "candidates lc w eligible st used a = b # rest \<longrightarrow>
        key (st ! a) \<noteq> key (st ! b) \<and> pickHomeAway st b a = pickHomeAway st a b"
    using candidates_keys [of lc w eligible st used a b rest] pickHomeAway_commute [of st a b]
    by blast
  have place: "placeable st a b w \<longrightarrow>
        key (st ! a) \<noteq> key (st ! b) \<and> pickHomeAway st b a = pickHomeAway st a b"
    using placeable_keys [of st a b w] pickHomeAway_commute [of st a b]
    by blast
  from rules sym cand place show ?thesis by blast
qed

theorem pickHomeAway_sides_witness:
  "pickHomeAway sideStates 0 1 = (1, 0) \<and> pickHomeAway sideStates 1 0 = (1, 0)
   \<and> pickHomeAway sideStates 0 4 = (0, 4) \<and> pickHomeAway sideStates 4 0 = (0, 4)
   \<and> pickHomeAway sideStates 0 3 = (0, 3) \<and> pickHomeAway sideStates 3 0 = (0, 3)
   \<and> placeable (initialState twoTeams) 0 1 1
   \<and> key (initialState twoTeams ! 0) \<noteq> key (initialState twoTeams ! 1)
   \<and> pickHomeAway (initialState twoTeams) 1 0 = pickHomeAway (initialState twoTeams) 0 1"
proof -
  have home: "homeGames (sideStates ! 1) < homeGames (sideStates ! 0)"
    by code_simp
  have away: "homeGames (sideStates ! 0) = homeGames (sideStates ! 4)
      \<and> awayGames (sideStates ! 4) < awayGames (sideStates ! 0)"
    by code_simp
  have keys: "homeGames (sideStates ! 0) = homeGames (sideStates ! 3)
      \<and> awayGames (sideStates ! 0) = awayGames (sideStates ! 3)
      \<and> key (sideStates ! 0) < key (sideStates ! 3)"
    by code_simp
  have ne: "key (sideStates ! 0) \<noteq> key (sideStates ! 1)"
    "key (sideStates ! 0) \<noteq> key (sideStates ! 4)"
    "key (sideStates ! 0) \<noteq> key (sideStates ! 3)"
    by code_simp+
  have pl: "placeable (initialState twoTeams) 0 1 1"
    by code_simp
  show ?thesis
    using pickHomeAway_sides [where st = sideStates and a = 0 and b = 1]
      pickHomeAway_sides [where st = sideStates and a = 0 and b = 4]
      pickHomeAway_sides [where st = sideStates and a = 0 and b = 3]
      pickHomeAway_sides [where st = "initialState twoTeams" and a = 0 and b = 1 and w = 1]
      home away keys ne pl
    by simp
qed

section \<open>The result object\<close>

text \<open>
  C9 as stated fails: the failure result of line 398 has only \<open>ok\<close> and \<open>reason\<close>. For three
  teams of one conference the result is a failure without \<open>unscheduled\<close>,
  \<open>scheduledOOC\<close> and \<open>neededOOC\<close>.
\<close>

theorem failure_without_counts:
  "ok (tryGenerateSchedule codeUnitCompare oneConference True) = False
   \<and> unscheduled (tryGenerateSchedule codeUnitCompare oneConference True) = None
   \<and> scheduledOOC (tryGenerateSchedule codeUnitCompare oneConference True) = None
   \<and> neededOOC (tryGenerateSchedule codeUnitCompare oneConference True) = None"
  by code_simp

text \<open>
  C9, amended. A success result carries \<open>ok\<close>, \<open>teams\<close>, \<open>unscheduled\<close>, \<open>scheduledOOC\<close> and
  \<open>neededOOC\<close> and no \<open>reason\<close>; a failure result carries \<open>ok\<close> and the fixed \<open>reason\<close> and
  none of the other fields.
\<close>

theorem result_fields:
  "(ok (tryGenerateSchedule lc ts av) \<longrightarrow>
      reason (tryGenerateSchedule lc ts av) = None
      \<and> teams (tryGenerateSchedule lc ts av) \<noteq> None
      \<and> unscheduled (tryGenerateSchedule lc ts av) \<noteq> None
      \<and> scheduledOOC (tryGenerateSchedule lc ts av) \<noteq> None
      \<and> neededOOC (tryGenerateSchedule lc ts av) \<noteq> None)
   \<and> (\<not> ok (tryGenerateSchedule lc ts av) \<longrightarrow>
      reason (tryGenerateSchedule lc ts av)
        = Some ''No valid OOC pairings available under constraints''
      \<and> teams (tryGenerateSchedule lc ts av) = None
      \<and> unscheduled (tryGenerateSchedule lc ts av) = None
      \<and> scheduledOOC (tryGenerateSchedule lc ts av) = None
      \<and> neededOOC (tryGenerateSchedule lc ts av) = None)"
  by (simp add: tryGenerateSchedule_def Let_def)

theorem result_fields_witness:
  "ok (tryGenerateSchedule codeUnitCompare twoTeams True)
   \<and> unscheduled (tryGenerateSchedule codeUnitCompare twoTeams True) \<noteq> None
   \<and> neededOOC (tryGenerateSchedule codeUnitCompare twoTeams True) \<noteq> None
   \<and> \<not> ok (tryGenerateSchedule codeUnitCompare oneConference True)
   \<and> reason (tryGenerateSchedule codeUnitCompare oneConference True)
        = Some ''No valid OOC pairings available under constraints''"
proof -
  have yes: "ok (tryGenerateSchedule codeUnitCompare twoTeams True)"
    by code_simp
  have no: "\<not> ok (tryGenerateSchedule codeUnitCompare oneConference True)"
    by code_simp
  show ?thesis
    using result_fields [of codeUnitCompare twoTeams True]
      result_fields [of codeUnitCompare oneConference True] yes no
    by simp
qed

section \<open>Failure and success\<close>



text \<open>
  The bound on the input in the second part is needed. In \<open>hugeDemand\<close> the first team asks
  for \<open>2 ^ 54\<close> games. One game is placed, in week 1, and two cells are written; but
  \<open>2 ^ 54 - 1\<close> is no double and line 331 stores \<open>2 ^ 54\<close> again, so the sum after the pass
  is the sum before it, \<open>scheduledOOC\<close> is 0, and line 397 returns the failure.
\<close>

lemma rounding_hides_a_game:
  "gamesPlaced codeUnitCompare hugeDemand True = 1
   \<and> newOocSlots hugeDemand (map ref (finalState codeUnitCompare hugeDemand True)) = 2
   \<and> weeks (ref (finalState codeUnitCompare hugeDemand True ! 0)) ! 1 = OocGame ''Beta'' False
   \<and> remainingSum (initialState hugeDemand) = Finite 18014398509481984
   \<and> remainingSum (finalState codeUnitCompare hugeDemand True) = Finite 18014398509481984
   \<and> ok (tryGenerateSchedule codeUnitCompare hugeDemand True) = False"
  by code_simp

section \<open>Progress accounting\<close>

text \<open>
  C10 as stated fails: \<open>scheduledOOC\<close> can be odd. In \<open>oddDemand\<close> the first team asks for
  \<open>2 ^ 53\<close> games and the second for one. The sum before the pass is \<open>2 ^ 53 + 1\<close> rounded,
  which is \<open>2 ^ 53\<close>; one game is placed and the sum after the pass is \<open>2 ^ 53 - 1\<close>; the
  result is a success with \<open>scheduledOOC = 1\<close>, for one game and two new cells.
\<close>

theorem scheduledOOC_odd:
  "ok (tryGenerateSchedule codeUnitCompare oddDemand True)
   \<and> neededOOC (tryGenerateSchedule codeUnitCompare oddDemand True)
       = Some (Finite 9007199254740992)
   \<and> unscheduled (tryGenerateSchedule codeUnitCompare oddDemand True)
       = Some (Finite 9007199254740991)
   \<and> scheduledOOC (tryGenerateSchedule codeUnitCompare oddDemand True) = Some (Finite 1)
   \<and> gamesPlaced codeUnitCompare oddDemand True = 1
   \<and> map_option (newOocSlots oddDemand) (teams (tryGenerateSchedule codeUnitCompare oddDemand True))
       = Some 2"
  by code_simp

text \<open>
  C10, amended. For an exact input, on success \<open>scheduledOOC\<close> is twice the number of games
  placed in the pass, hence even and not negative; and for every input the number of new
  \<open>oocGame\<close> cells is twice the number of games placed. No \<open>oocRemaining\<close> is NaN at the
  start of a pass, and a placement keeps it so. A game is placed only between two states
  whose \<open>oocRemaining\<close> is positive, and the placement stores for each the double nearest
  to \<open>oocRemaining - 1\<close>, which for a count is the count below it.
\<close>

theorem scheduledOOC_twice_games:
  "(exactInput ts \<longrightarrow> ok (tryGenerateSchedule lc ts av) \<longrightarrow>
      scheduledOOC (tryGenerateSchedule lc ts av)
        = Some (ofInt (2 * int (gamesPlaced lc ts av))))
   \<and> newOocSlots ts (map ref (finalState lc ts av)) = 2 * gamesPlaced lc ts av
   \<and> noNaN (initialState ts)
   \<and> (placeable st t opp w \<longrightarrow> noNaN st \<longrightarrow>
        noNaN (placeGameAtWeek st t opp w)
        \<and> gtZero (oocRemaining (st ! t)) \<and> gtZero (oocRemaining (st ! opp)))
   \<and> (placeable st t opp w \<longrightarrow>
        oocRemaining (placeGameAtWeek st t opp w ! t) = numSub (oocRemaining (st ! t)) (Finite 1)
        \<and> oocRemaining (placeGameAtWeek st t opp w ! opp)
            = numSub (oocRemaining (st ! opp)) (Finite 1))
   \<and> (placeable st t opp w \<longrightarrow> isCount (oocRemaining (st ! t)) \<longrightarrow>
        isCount (oocRemaining (placeGameAtWeek st t opp w ! t))
        \<and> countOf (oocRemaining (placeGameAtWeek st t opp w ! t))
            = countOf (oocRemaining (st ! t)) - 1)
   \<and> (placeable st t opp w \<longrightarrow> isCount (oocRemaining (st ! opp)) \<longrightarrow>
        isCount (oocRemaining (placeGameAtWeek st t opp w ! opp))
        \<and> countOf (oocRemaining (placeGameAtWeek st t opp w ! opp))
            = countOf (oocRemaining (st ! opp)) - 1)"
proof -
  have a: "scheduledOOC (tryGenerateSchedule lc ts av)
        = Some (ofInt (2 * int (gamesPlaced lc ts av)))"
    if "exactInput ts" "ok (tryGenerateSchedule lc ts av)"
    using that(2) exact_scheduled [OF that(1), of lc av]
    by (simp add: tryGenerateSchedule_def Let_def split: if_splits)
  have b: "newOocSlots ts (map ref (finalState lc ts av)) = 2 * gamesPlaced lc ts av"
    by (rule slots_twice_games)
  have c: "noNaN (initialState ts)"
    by (rule noNaN_initialState)
  have d: "noNaN (placeGameAtWeek st t opp w)
        \<and> gtZero (oocRemaining (st ! t)) \<and> gtZero (oocRemaining (st ! opp))"
    if "placeable st t opp w" "noNaN st"
    using that by (simp add: noNaN_place placeable_positive)
  have e: "oocRemaining (placeGameAtWeek st t opp w ! t) = numSub (oocRemaining (st ! t)) (Finite 1)
        \<and> oocRemaining (placeGameAtWeek st t opp w ! opp)
            = numSub (oocRemaining (st ! opp)) (Finite 1)"
    if "placeable st t opp w"
    using that
    by (simp add: placeable_def placeGameAtWeek_first placeGameAtWeek_second afterGame_simps)
  have f: "isCount (oocRemaining (placeGameAtWeek st t opp w ! t))
        \<and> countOf (oocRemaining (placeGameAtWeek st t opp w ! t))
            = countOf (oocRemaining (st ! t)) - 1"
    if "placeable st t opp w" "isCount (oocRemaining (st ! t))"
    using that placeable_count(1) by blast
  have g: "isCount (oocRemaining (placeGameAtWeek st t opp w ! opp))
        \<and> countOf (oocRemaining (placeGameAtWeek st t opp w ! opp))
            = countOf (oocRemaining (st ! opp)) - 1"
    if "placeable st t opp w" "isCount (oocRemaining (st ! opp))"
    using that placeable_count(2) by blast
  from a b c d e f g show ?thesis by blast
qed

theorem scheduledOOC_twice_games_witness:
  "exactInput twoTeams
   \<and> scheduledOOC (tryGenerateSchedule codeUnitCompare twoTeams True) = Some (Finite 2)
   \<and> gamesPlaced codeUnitCompare twoTeams True = 1
   \<and> placeable (initialState twoTeams) 0 1 1
   \<and> gtZero (oocRemaining (initialState twoTeams ! 0))
   \<and> oocRemaining (placeGameAtWeek (initialState twoTeams) 0 1 1 ! 0) = Finite 0
   \<and> countOf (oocRemaining (placeGameAtWeek (initialState twoTeams) 0 1 1 ! 1)) = 0"
proof -
  have ex: "exactInput twoTeams"
    by code_simp
  have yes: "ok (tryGenerateSchedule codeUnitCompare twoTeams True)"
    by code_simp
  have one: "gamesPlaced codeUnitCompare twoTeams True = 1"
    by code_simp
  have pl: "placeable (initialState twoTeams) 0 1 1"
    by code_simp
  have cnt: "isCount (oocRemaining (initialState twoTeams ! 0))"
    "isCount (oocRemaining (initialState twoTeams ! 1))"
    "oocRemaining (initialState twoTeams ! 0) = Finite 1"
    "oocRemaining (initialState twoTeams ! 1) = Finite 1"
    by code_simp+
  have sub: "numSub (Finite 1) (Finite 1) = Finite 0"
    by code_simp
  show ?thesis
    using scheduledOOC_twice_games [of twoTeams codeUnitCompare True "initialState twoTeams" 0 1 1]
      ex yes one pl cnt sub
    by (simp add: ofInt_def)
qed

text \<open>
  C4 as stated fails: \<open>scheduledOOC\<close> is not half the number of new \<open>oocGame\<close> cells. For
  two teams that get one game, two cells are written and \<open>scheduledOOC\<close> is 2.
\<close>

theorem scheduledOOC_not_half:
  "scheduledOOC (tryGenerateSchedule codeUnitCompare twoTeams True) = Some (Finite 2)
   \<and> map_option (newOocSlots twoTeams) (teams (tryGenerateSchedule codeUnitCompare twoTeams True))
       = Some 2"
  by code_simp

text \<open>
  C4, amended. On success \<open>scheduledOOC\<close> is the double \<open>neededOOC - unscheduled\<close>, and the
  number of new \<open>oocGame\<close> cells in the returned teams is twice the number of games placed.
  For an exact input, one whose \<open>oocNeeded\<close> are whole numbers from 0 with a sum of at most
  \<open>2 ^ 53\<close>, \<open>scheduledOOC\<close> is the number of new \<open>oocGame\<close> cells.
\<close>

theorem progress_accounting:
  assumes "ok (tryGenerateSchedule lc ts av)"
  shows "\<exists>needed left done out.
           neededOOC (tryGenerateSchedule lc ts av) = Some needed
           \<and> unscheduled (tryGenerateSchedule lc ts av) = Some left
           \<and> scheduledOOC (tryGenerateSchedule lc ts av) = Some done
           \<and> teams (tryGenerateSchedule lc ts av) = Some out
           \<and> numSub needed left = done
           \<and> newOocSlots ts out = 2 * gamesPlaced lc ts av
           \<and> (exactInput ts \<longrightarrow> done = ofInt (int (newOocSlots ts out)))"
proof -
  have "numSub (remainingSum (initialState ts)) (remainingSum (finalState lc ts av))
        = ofInt (int (newOocSlots ts (map ref (finalState lc ts av))))"
    if "exactInput ts"
    using exact_scheduled [OF that, of lc av] slots_twice_games [of ts lc av] by simp
  then show ?thesis
    using assms slots_twice_games [of ts lc av]
    by (simp add: tryGenerateSchedule_def Let_def split: if_splits)
qed

theorem progress_accounting_witness:
  "exactInput partialTeams
   \<and> neededOOC (tryGenerateSchedule codeUnitCompare partialTeams True) = Some (Finite 3)
   \<and> unscheduled (tryGenerateSchedule codeUnitCompare partialTeams True) = Some (Finite 1)
   \<and> scheduledOOC (tryGenerateSchedule codeUnitCompare partialTeams True) = Some (Finite 2)
   \<and> map_option (newOocSlots partialTeams)
        (teams (tryGenerateSchedule codeUnitCompare partialTeams True)) = Some 2
   \<and> gamesPlaced codeUnitCompare partialTeams True = 1"
proof -
  have ex: "exactInput partialTeams"
    by code_simp
  have yes: "ok (tryGenerateSchedule codeUnitCompare partialTeams True)"
    by code_simp
  have vals: "neededOOC (tryGenerateSchedule codeUnitCompare partialTeams True) = Some (Finite 3)"
    "unscheduled (tryGenerateSchedule codeUnitCompare partialTeams True) = Some (Finite 1)"
    by code_simp+
  have sub: "numSub (Finite 3) (Finite 1) = Finite 2"
    by code_simp
  from progress_accounting [OF yes] obtain needed left sched out where
    r: "neededOOC (tryGenerateSchedule codeUnitCompare partialTeams True) = Some needed"
      "unscheduled (tryGenerateSchedule codeUnitCompare partialTeams True) = Some left"
      "scheduledOOC (tryGenerateSchedule codeUnitCompare partialTeams True) = Some sched"
      "teams (tryGenerateSchedule codeUnitCompare partialTeams True) = Some out"
      "numSub needed left = sched"
      "newOocSlots partialTeams out = 2 * gamesPlaced codeUnitCompare partialTeams True"
      "exactInput partialTeams \<longrightarrow> sched = ofInt (int (newOocSlots partialTeams out))"
    by blast
  have d: "sched = Finite 2"
    using r(1,2,5) vals sub by simp
  have "ofInt (int (newOocSlots partialTeams out)) = Finite 2"
    using r(7) ex d by simp
  then have n: "newOocSlots partialTeams out = 2"
    by (simp add: ofInt_def)
  then have "gamesPlaced codeUnitCompare partialTeams True = 1"
    using r(6) by simp
  then show ?thesis
    using ex vals r(3,4) d n by simp
qed

section \<open>The twelve-game cap\<close>

text \<open>
  C2. Line 387 places a game only for two states whose \<open>totalGames\<close> is below 12, and a
  placement raises \<open>totalGames\<close> of both participants by one, to at most 12, and of nobody
  else. From any state, through any weeks of a pass, \<open>totalGames\<close> of a team does not
  decrease and does not pass 12 unless it started above. The input of a run has no team
  with more than twelve game cells: validateParsedTeams rejects such a list (line 82,
  lemma \<open>countGames_validated\<close>), and any later input is the output of an earlier run. For
  such an input every team of every output has at most twelve game cells, and
  \<open>totalGames\<close> is that number.
\<close>

theorem totalGames_at_most_12:
  assumes "\<forall>t\<in>set ts. countGames (weeks t) \<le> 12"
  shows "(candidates lc w eligible st used t = opp # rest \<longrightarrow>
            totalGames (st ! t) < 12 \<and> totalGames (st ! opp) < 12)
    \<and> (placeable st t opp w \<longrightarrow>
          totalGames (placeGameAtWeek st t opp w ! t) = totalGames (st ! t) + 1
          \<and> totalGames (placeGameAtWeek st t opp w ! opp) = totalGames (st ! opp) + 1
          \<and> totalGames (placeGameAtWeek st t opp w ! t) \<le> 12
          \<and> totalGames (placeGameAtWeek st t opp w ! opp) \<le> 12
          \<and> (\<forall>k. k \<noteq> t \<and> k \<noteq> opp \<longrightarrow>
                totalGames (placeGameAtWeek st t opp w ! k) = totalGames (st ! k)))
    \<and> (\<forall>i<length st. totalGames (st ! i) \<le> totalGames (weekLoop lc ws st ! i)
          \<and> totalGames (weekLoop lc ws st ! i) \<le> max 12 (totalGames (st ! i)))
    \<and> (\<forall>i<length ts. totalGames (initialState ts ! i) \<le> totalGames (finalState lc ts av ! i)
          \<and> totalGames (finalState lc ts av ! i) \<le> 12)
    \<and> (\<forall>out. teams (tryGenerateSchedule lc ts av) = Some out \<longrightarrow>
          (\<forall>i<length ts. countGames (weeks (out ! i)) = totalGames (finalState lc ts av ! i)
                \<and> countGames (weeks (out ! i)) \<le> 12))"
proof -
  have a: "candidates lc w eligible st used t = opp # rest \<longrightarrow>
            totalGames (st ! t) < 12 \<and> totalGames (st ! opp) < 12"
    using candidates_guard by blast
  have b: "placeable st t opp w \<longrightarrow>
          totalGames (placeGameAtWeek st t opp w ! t) = totalGames (st ! t) + 1
          \<and> totalGames (placeGameAtWeek st t opp w ! opp) = totalGames (st ! opp) + 1
          \<and> totalGames (placeGameAtWeek st t opp w ! t) \<le> 12
          \<and> totalGames (placeGameAtWeek st t opp w ! opp) \<le> 12
          \<and> (\<forall>k. k \<noteq> t \<and> k \<noteq> opp \<longrightarrow>
                totalGames (placeGameAtWeek st t opp w ! k) = totalGames (st ! k))"
    by (auto simp add: placeable_def placeGameAtWeek_first placeGameAtWeek_second
        afterGame_simps placeGameAtWeek_other canScheduleBetween_def split: if_splits)
  have c: "\<forall>i<length st. totalGames (st ! i) \<le> totalGames (weekLoop lc ws st ! i)
          \<and> totalGames (weekLoop lc ws st ! i) \<le> max 12 (totalGames (st ! i))"
    using bounded_weekLoop [of st lc ws] by (simp add: bounded_def)
  have d: "\<forall>i<length ts. totalGames (initialState ts ! i) \<le> totalGames (finalState lc ts av ! i)
          \<and> totalGames (finalState lc ts av ! i) \<le> 12"
  proof (intro allI impI)
    fix i assume i: "i < length ts"
    have "totalGames (initialState ts ! i) \<le> 12"
      using assms i by (simp add: initial_totalGames)
    moreover have "totalGames (initialState ts ! i) \<le> totalGames (finalState lc ts av ! i)
        \<and> totalGames (finalState lc ts av ! i) \<le> max 12 (totalGames (initialState ts ! i))"
      using bounded_weekLoop [of "initialState ts" lc "weekOrder av"] i
      by (simp add: bounded_def finalState_def length_initialState)
    ultimately show "totalGames (initialState ts ! i) \<le> totalGames (finalState lc ts av ! i)
          \<and> totalGames (finalState lc ts av ! i) \<le> 12"
      by simp
  qed
  have e: "\<forall>out. teams (tryGenerateSchedule lc ts av) = Some out \<longrightarrow>
          (\<forall>i<length ts. countGames (weeks (out ! i)) = totalGames (finalState lc ts av ! i)
                \<and> countGames (weeks (out ! i)) \<le> 12)"
  proof (intro allI impI)
    fix out i assume out: "teams (tryGenerateSchedule lc ts av) = Some out" and i: "i < length ts"
    have "out ! i = ref (finalState lc ts av ! i)"
      using teams_Some [OF out] i by (simp add: length_finalState)
    then have eq: "countGames (weeks (out ! i)) = totalGames (finalState lc ts av ! i)"
      using final_totalGames [OF i, of lc av] by simp
    have "totalGames (finalState lc ts av ! i) \<le> 12"
      using d i by blast
    then show "countGames (weeks (out ! i)) = totalGames (finalState lc ts av ! i)
                \<and> countGames (weeks (out ! i)) \<le> 12"
      using eq by (simp only:)
  qed
  from a b c d e show ?thesis by blast
qed

theorem totalGames_at_most_12_witness:
  "teams (tryGenerateSchedule codeUnitCompare fullSlate True) = Some fullSlateOut
   \<and> countGames (weeks (fullSlate ! 0)) = 11 \<and> countGames (weeks (fullSlateOut ! 0)) = 12
   \<and> countGames (weeks (fullSlate ! 1)) = 10 \<and> countGames (weeks (fullSlateOut ! 1)) = 11
   \<and> totalGames (finalState codeUnitCompare fullSlate True ! 0) = 12
   \<and> countGames (weeks (fullSlateOut ! 0)) \<le> 12"
proof -
  have h: "\<forall>t\<in>set fullSlate. countGames (weeks t) \<le> 12"
    by code_simp
  have run: "teams (tryGenerateSchedule codeUnitCompare fullSlate True) = Some fullSlateOut"
    by code_simp
  have c: "countGames (weeks (fullSlate ! 0)) = 11" "countGames (weeks (fullSlateOut ! 0)) = 12"
    "countGames (weeks (fullSlate ! 1)) = 10" "countGames (weeks (fullSlateOut ! 1)) = 11"
    by code_simp+
  have l: "0 < length fullSlate" by code_simp
  show ?thesis
    using totalGames_at_most_12 [OF h, where lc = codeUnitCompare and av = True
        and st = "[]" and ws = "[]"] run c l
    by simp
qed

section \<open>Symmetry of new games\<close>

text \<open>
  C5. If the returned teams differ from the input at week \<open>w\<close> of team \<open>i\<close>, the new cell is
  an \<open>oocGame\<close> naming another team \<open>j\<close>, and week \<open>w\<close> of team \<open>j\<close> is an \<open>oocGame\<close> naming
  team \<open>i\<close> with the opposite \<open>away\<close> value; both cells were open in the input.
\<close>

theorem new_game_has_partner:
  assumes "teams (tryGenerateSchedule lc ts av) = Some out"
    and "i < length ts" and "w < length (weeks (ts ! i))"
    and "weeks (out ! i) ! w \<noteq> weeks (ts ! i) ! w"
  shows "\<exists>j x. j < length ts \<and> j \<noteq> i \<and> w < length (weeks (ts ! j))
           \<and> weeks (out ! i) ! w = OocGame (name (ts ! j)) x
           \<and> weeks (out ! j) ! w = OocGame (name (ts ! i)) (\<not> x)
           \<and> isOpen (weeks (ts ! i) ! w) \<and> isOpen (weeks (ts ! j) ! w)"
proof -
  let ?ini = "initialState ts" and ?fin = "finalState lc ts av"
  have out: "out = map ref ?fin" using assms(1) by (rule teams_Some)
  have len: "length ?fin = length ts" "length ?ini = length ts"
    by (simp_all add: length_finalState length_initialState)
  have pa: "paired ?ini ?fin"
    using passInv_finalState [of ts lc av] by (simp add: passInv_def)
  have ch: "weeks (ref (?fin ! i)) ! w \<noteq> weeks (ref (?ini ! i)) ! w"
    using assms(2,4) out len by (simp add: initialState_nth)
  have wl: "w < length (weeks (ref (?ini ! i)))"
    using assms(2,3) by (simp add: initialState_nth)
  have il: "i < length ?ini" using assms(2) len by simp
  note half = pa [unfolded paired_def, rule_format, OF il wl ch]
  then obtain j x where
    j: "j < length ?ini" "j \<noteq> i" "w < length (weeks (ref (?ini ! j)))" and
    op: "isOpen (weeks (ref (?ini ! i)) ! w)" "isOpen (weeks (ref (?ini ! j)) ! w)" and
    wi: "weeks (ref (?fin ! i)) ! w = OocGame (st_name (?ini ! j)) x" and
    wj: "weeks (ref (?fin ! j)) ! w = OocGame (st_name (?ini ! i)) (\<not> x)"
    by blast
  have jl: "j < length ts" using j(1) len by simp
  have "j < length ts \<and> j \<noteq> i \<and> w < length (weeks (ts ! j))
           \<and> weeks (out ! i) ! w = OocGame (name (ts ! j)) x
           \<and> weeks (out ! j) ! w = OocGame (name (ts ! i)) (\<not> x)
           \<and> isOpen (weeks (ts ! i) ! w) \<and> isOpen (weeks (ts ! j) ! w)"
    using jl j(2,3) op wi wj assms(2) out len by (simp add: initialState_nth)
  then show ?thesis by blast
qed

theorem new_game_has_partner_witness:
  "teams (tryGenerateSchedule codeUnitCompare twoTeams True) = Some twoTeamsOut
   \<and> weeks (twoTeamsOut ! 0) ! 1 = OocGame ''Beta'' False
   \<and> weeks (twoTeamsOut ! 1) ! 1 = OocGame ''Alpha'' True
   \<and> (\<exists>j x. j < length twoTeams \<and> j \<noteq> 0 \<and> 1 < length (weeks (twoTeams ! j))
           \<and> weeks (twoTeamsOut ! 0) ! 1 = OocGame (name (twoTeams ! j)) x
           \<and> weeks (twoTeamsOut ! j) ! 1 = OocGame (name (twoTeams ! 0)) (\<not> x)
           \<and> isOpen (weeks (twoTeams ! 0) ! 1) \<and> isOpen (weeks (twoTeams ! j) ! 1))"
proof -
  have run: "teams (tryGenerateSchedule codeUnitCompare twoTeams True) = Some twoTeamsOut"
    by code_simp
  have i: "0 < length twoTeams" "1 < length (weeks (twoTeams ! 0))"
    "weeks (twoTeamsOut ! 0) ! 1 \<noteq> weeks (twoTeams ! 0) ! 1"
    by code_simp+
  have v: "weeks (twoTeamsOut ! 0) ! 1 = OocGame ''Beta'' False"
    "weeks (twoTeamsOut ! 1) ! 1 = OocGame ''Alpha'' True"
    by code_simp+
  from new_game_has_partner [OF run i] run v show ?thesis
    by simp
qed

section \<open>The bye pass\<close>

text \<open>
  C8. assignByes keeps the list and the identity of every team, changes a cell only from
  \<open>empty\<close> to \<open>bye\<close>, leaves a team with at most three byes unless it had more before, and
  changes nothing when it runs a second time with the same flag.
\<close>

theorem assignByes_only_empty:
  "length (assignByes list av) = length list
   \<and> (\<forall>i<length list.
         name (assignByes list av ! i) = name (list ! i)
         \<and> conference (assignByes list av ! i) = conference (list ! i)
         \<and> oocNeeded (assignByes list av ! i) = oocNeeded (list ! i)
         \<and> length (weeks (assignByes list av ! i)) = length (weeks (list ! i))
         \<and> (\<forall>w<length (weeks (list ! i)).
               weeks (assignByes list av ! i) ! w = weeks (list ! i) ! w
               \<or> (weeks (list ! i) ! w = Empty \<and> weeks (assignByes list av ! i) ! w = Bye))
         \<and> byeCount (weeks (assignByes list av ! i)) \<le> max 3 (byeCount (weeks (list ! i))))
   \<and> assignByes (assignByes list av) av = assignByes list av"
  using byesFor_ok [of av]
  by (simp add: assignByes_map byesFor_idem)

theorem assignByes_only_empty_witness:
  "byeCount (weeks (twoTeamsOut ! 0)) = 0
   \<and> byeCount (weeks (assignByes twoTeamsOut True ! 0)) = 3
   \<and> weeks (twoTeamsOut ! 0) ! 2 = Empty
   \<and> weeks (assignByes twoTeamsOut True ! 0) ! 2 = Bye
   \<and> weeks (assignByes twoTeamsOut True ! 0) ! 1 = weeks (twoTeamsOut ! 0) ! 1
   \<and> assignByes (assignByes twoTeamsOut True) True = assignByes twoTeamsOut True"
proof -
  have v: "byeCount (weeks (twoTeamsOut ! 0)) = 0"
    "byeCount (weeks (assignByes twoTeamsOut True ! 0)) = 3"
    "weeks (twoTeamsOut ! 0) ! 2 = Empty"
    "weeks (assignByes twoTeamsOut True ! 0) ! 2 = Bye"
    "weeks (assignByes twoTeamsOut True ! 0) ! 1 = weeks (twoTeamsOut ! 0) ! 1"
    by code_simp+
  show ?thesis
    using assignByes_only_empty [of twoTeamsOut True] v by simp
qed

section \<open>Which cells a run changes\<close>

text \<open>
  C1 as stated fails: a \<open>bye\<close> of the input can be replaced by an \<open>oocGame\<close>. Two teams
  whose week 1 is a bye are paired in week 1, since computeTeamState counts a \<open>bye\<close> week
  as available (line 263).
\<close>

theorem bye_overwritten:
  "weeks (byeTeams ! 0) ! 1 = Bye
   \<and> weeks (onGenerate codeUnitCompare byeTeams True ! 0) ! 1 = OocGame ''Beta'' False"
  by code_simp

text \<open>
  C1, amended. A run (tryGenerateSchedule, then assignByes on success) keeps the length
  of every list and changes a cell only in these ways: \<open>empty\<close> to \<open>bye\<close>, or \<open>empty\<close> or
  \<open>bye\<close> to \<open>oocGame\<close>. Every \<open>confHome\<close>, \<open>confAway\<close>, \<open>lockedOOC\<close> and earlier \<open>oocGame\<close>
  cell of the input is the same in the output. The matcher alone changes a cell only
  from \<open>empty\<close> or \<open>bye\<close> to \<open>oocGame\<close>.
\<close>

theorem only_open_cells_change:
  assumes "i < length ts" and "w < length (weeks (ts ! i))"
  shows "length (onGenerate lc ts av) = length ts
    \<and> length (weeks (onGenerate lc ts av ! i)) = length (weeks (ts ! i))
    \<and> (weeks (onGenerate lc ts av ! i) ! w = weeks (ts ! i) ! w
        \<or> (weeks (ts ! i) ! w = Empty \<and> weeks (onGenerate lc ts av ! i) ! w = Bye)
        \<or> (isOpen (weeks (ts ! i) ! w) \<and> isOocGame (weeks (onGenerate lc ts av ! i) ! w)))
    \<and> (\<forall>out. teams (tryGenerateSchedule lc ts av) = Some out \<longrightarrow>
          length out = length ts
          \<and> length (weeks (out ! i)) = length (weeks (ts ! i))
          \<and> (weeks (out ! i) ! w = weeks (ts ! i) ! w
              \<or> (isOpen (weeks (ts ! i) ! w) \<and> isOocGame (weeks (out ! i) ! w))))
    \<and> (\<not> isOpen (weeks (ts ! i) ! w) \<longrightarrow>
          weeks (onGenerate lc ts av ! i) ! w = weeks (ts ! i) ! w)"
proof -
  let ?mid = "map ref (finalState lc ts av)"
  have ml: "length ?mid = length ts" by (simp add: length_finalState)
  have mi: "?mid ! i = ref (finalState lc ts av ! i)"
    using assms(1) by (simp add: length_finalState)
  note m = matcher_changes [OF assms, of lc av]
  have mw: "length (weeks (?mid ! i)) = length (weeks (ts ! i))"
    and mc: "weeks (?mid ! i) ! w = weeks (ts ! i) ! w
        \<or> (isOpen (weeks (ts ! i) ! w) \<and> isOocGame (weeks (?mid ! i) ! w))"
    using m mi by simp_all
  have second: "\<forall>out. teams (tryGenerateSchedule lc ts av) = Some out \<longrightarrow>
          length out = length ts
          \<and> length (weeks (out ! i)) = length (weeks (ts ! i))
          \<and> (weeks (out ! i) ! w = weeks (ts ! i) ! w
              \<or> (isOpen (weeks (ts ! i) ! w) \<and> isOocGame (weeks (out ! i) ! w)))"
    using ml mw mc by (auto dest!: teams_Some)
  have b: "length (assignByes ?mid av) = length ts
    \<and> length (weeks (assignByes ?mid av ! i)) = length (weeks (ts ! i))
    \<and> (weeks (assignByes ?mid av ! i) ! w = weeks (ts ! i) ! w
        \<or> (weeks (ts ! i) ! w = Empty \<and> weeks (assignByes ?mid av ! i) ! w = Bye)
        \<or> (isOpen (weeks (ts ! i) ! w) \<and> isOocGame (weeks (assignByes ?mid av ! i) ! w)))"
  proof -
    have il: "i < length ?mid" using assms(1) ml by simp
    have wl: "w < length (weeks (?mid ! i))" using assms(2) mw by simp
    have bi: "assignByes ?mid av ! i = byesFor av (?mid ! i)"
      using il by (simp add: assignByes_map)
    have bl: "length (weeks (byesFor av (?mid ! i))) = length (weeks (?mid ! i))"
      and bc: "weeks (byesFor av (?mid ! i)) ! w = weeks (?mid ! i) ! w
          \<or> (weeks (?mid ! i) ! w = Empty \<and> weeks (byesFor av (?mid ! i)) ! w = Bye)"
      using byesFor_ok [of av "?mid ! i"] wl by simp_all
    have "weeks (byesFor av (?mid ! i)) ! w = weeks (ts ! i) ! w
        \<or> (weeks (ts ! i) ! w = Empty \<and> weeks (byesFor av (?mid ! i)) ! w = Bye)
        \<or> (isOpen (weeks (ts ! i) ! w) \<and> isOocGame (weeks (byesFor av (?mid ! i)) ! w))"
      using mc bc by auto
    then show ?thesis
      using bi bl mw ml by (simp add: assignByes_map)
  qed
  have first: "length (onGenerate lc ts av) = length ts
    \<and> length (weeks (onGenerate lc ts av ! i)) = length (weeks (ts ! i))
    \<and> (weeks (onGenerate lc ts av ! i) ! w = weeks (ts ! i) ! w
        \<or> (weeks (ts ! i) ! w = Empty \<and> weeks (onGenerate lc ts av ! i) ! w = Bye)
        \<or> (isOpen (weeks (ts ! i) ! w) \<and> isOocGame (weeks (onGenerate lc ts av ! i) ! w)))"
  proof (cases "ts \<noteq> [] \<and> ok (tryGenerateSchedule lc ts av)")
    case True
    then have "onGenerate lc ts av = assignByes ?mid av"
      by (simp add: onGenerate_def Let_def finalState_teams)
    then show ?thesis using b by simp
  next
    case False
    then have "onGenerate lc ts av = ts"
      by (auto simp add: onGenerate_def Let_def)
    then show ?thesis by simp
  qed
  have third: "\<not> isOpen (weeks (ts ! i) ! w) \<longrightarrow>
          weeks (onGenerate lc ts av ! i) ! w = weeks (ts ! i) ! w"
    using first by (auto simp add: isOpen_def)
  from first second third show ?thesis by blast
qed

theorem only_open_cells_change_witness:
  "weeks (byeTeams ! 0) ! 1 = Bye
   \<and> isOocGame (weeks (onGenerate codeUnitCompare byeTeams True ! 0) ! 1)
   \<and> weeks (byeTeams ! 0) ! 2 = Empty
   \<and> weeks (onGenerate codeUnitCompare byeTeams True ! 0) ! 2 = Bye
   \<and> length (onGenerate codeUnitCompare byeTeams True) = length byeTeams"
proof -
  have i: "0 < length byeTeams" "1 < length (weeks (byeTeams ! 0))"
    by code_simp+
  have v: "weeks (byeTeams ! 0) ! 1 = Bye"
    "isOocGame (weeks (onGenerate codeUnitCompare byeTeams True ! 0) ! 1)"
    "weeks (byeTeams ! 0) ! 2 = Empty"
    "weeks (onGenerate codeUnitCompare byeTeams True ! 0) ! 2 = Bye"
    by code_simp+
  from only_open_cells_change [OF i, of codeUnitCompare True] v show ?thesis
    by simp
qed

end
